theory Spec2Isabelle
  imports Main
begin

section \<open>Data model\<close>

text \<open>
  The lifecycle states of \<^verbatim>\<open>types.ts\<close> (enum \<^verbatim>\<open>State\<close>), used for the tree and for
  each module.
\<close>

datatype State = off | initializing | up | deinitializing | down | error

text \<open>
  Caller-supplied values (\<^verbatim>\<open>any\<close> in the source): seed data and the values produced by
  init operations. The source looks at such a value only through JavaScript truthiness
  (\<^verbatim>\<open>module.data || data\<close>), so the model keeps enough structure to decide it. Numbers are
  restricted to integers; \<open>JObj\<close> stands for any object, array or function reference.
\<close>

datatype jsval = JUndefined | JNull | JBool bool | JNum int | JStr string | JObj nat

fun truthy :: "jsval \<Rightarrow> bool" where
  "truthy JUndefined = False"
| "truthy JNull = False"
| "truthy (JBool b) = b"
| "truthy (JNum n) = (n \<noteq> 0)"
| "truthy (JStr s) = (s \<noteq> [])"
| "truthy (JObj r) = True"

text \<open>
  Everything the source throws or catches: the two \<^verbatim>\<open>new Error(...)\<close> of the constructor and of
  \<^verbatim>\<open>_moduleInited\<close>, the error of \<^verbatim>\<open>init()\<close>, the \<^verbatim>\<open>TypeError\<close> of the runtime, and whatever a
  module operation rejects with.
\<close>

datatype exn =
    Broken_dependency string
  | Type_error
  | Cant_init_tree
  | State_error
  | Thrown jsval

text \<open>
  \<^verbatim>\<open>ModuleDescription\<close> of \<^verbatim>\<open>types.ts\<close>. The operations \<^verbatim>\<open>init\<close> and \<^verbatim>\<open>deinit\<close> are the caller's
  code; the model does not hold them but receives their outcomes as actions (below).
  An absent optional field is \<open>None\<close> (\<open>JUndefined\<close> for \<^verbatim>\<open>data\<close>).
\<close>

record ModuleDescription =
  deps :: "string list option"
  seed :: jsval
  needed_flag :: "bool option"

text \<open>One entry of \<^verbatim>\<open>DepsTree.modules\<close>.\<close>

record module =
  dependencies :: "string list"
  dependenciesToLoad :: int
  dependants :: "string list"
  state_m :: State
  dependantsToUnload :: int
  needed :: bool
  data :: jsval
  error_m :: "exn option"

text \<open>
  The registry \<^verbatim>\<open>this.modules\<close> is an object keyed by module name. It is modelled as an
  association list in the order in which \<^verbatim>\<open>for (name in this.modules)\<close> enumerates it,
  which is the enumeration order of the constructor's argument.
\<close>

type_synonym registry = "(string \<times> module) list"

definition upd :: "string \<Rightarrow> (module \<Rightarrow> module) \<Rightarrow> registry \<Rightarrow> registry" where
  "upd name f ms = map (\<lambda>(n, m). if n = name then (n, f m) else (n, m)) ms"

text \<open>
  \<^verbatim>\<open>this.modules\<close> is created by the literal \<^verbatim>\<open>{}\<close>, so reading \<^verbatim>\<open>this.modules[depName]\<close> for a
  name that is not a module finds the property of that name inherited from
  \<^verbatim>\<open>Object.prototype\<close>, when there is one, and \<^verbatim>\<open>undefined\<close> otherwise.
\<close>

definition object_prototype_names :: "string list" where
  "object_prototype_names =
     [''constructor'', ''__defineGetter__'', ''__defineSetter__'', ''hasOwnProperty'',
      ''__lookupGetter__'', ''__lookupSetter__'', ''isPrototypeOf'', ''propertyIsEnumerable'',
      ''toString'', ''valueOf'', ''__proto__'', ''toLocaleString'']"

datatype lookup = Own module | Inherited | Undefined

definition get_module :: "registry \<Rightarrow> string \<Rightarrow> lookup" where
  "get_module ms name =
     (case map_of ms name of
        Some m \<Rightarrow> Own m
      | None \<Rightarrow> if name \<in> set object_prototype_names then Inherited else Undefined)"


section \<open>Construction\<close>

text \<open>
  The constructor's argument is an object keyed by module name; it is given here as the
  list of its entries in \<^verbatim>\<open>for (name in modules)\<close> order. The keys of an object are
  distinct, and the key \<^verbatim>\<open>__proto__\<close> is not considered (assigning
  \<^verbatim>\<open>this.modules['__proto__']\<close> adds no entry to the registry).
\<close>

definition wf_input :: "(string \<times> ModuleDescription) list \<Rightarrow> bool" where
  "wf_input input \<longleftrightarrow> distinct (map fst input) \<and> ''__proto__'' \<notin> set (map fst input)"

text \<open>First loop of the constructor: one registry entry per description.\<close>

definition new_module :: "ModuleDescription \<Rightarrow> module" where
  "new_module d =
     (let dependencies = (case deps d of None \<Rightarrow> [] | Some ds \<Rightarrow> ds) in
      \<lparr> dependencies = dependencies,
        dependenciesToLoad = int (length dependencies),
        dependants = [],
        state_m = off,
        dependantsToUnload = 0,
        needed = (needed_flag d = Some True),
        data = seed d,
        error_m = None \<rparr>)"

text \<open>
  Second loop: every dependency name is looked up and the referencing module is pushed on
  its \<^verbatim>\<open>dependants\<close>. A name that is \<^verbatim>\<open>undefined\<close> in the registry throws
  \<^verbatim>\<open>Error('Broken dependency ...')\<close>; a name inherited from \<^verbatim>\<open>Object.prototype\<close> is truthy, has
  no \<^verbatim>\<open>dependants\<close>, and \<^verbatim>\<open>dependency.dependants.push\<close> throws a \<^verbatim>\<open>TypeError\<close>.
\<close>

fun add_dependants :: "string \<Rightarrow> string list \<Rightarrow> registry \<Rightarrow> exn + registry" where
  "add_dependants moduleName [] ms = Inr ms"
| "add_dependants moduleName (depName # rest) ms =
     (case get_module ms depName of
        Undefined \<Rightarrow> Inl (Broken_dependency depName)
      | Inherited \<Rightarrow> Inl Type_error
      | Own dependency \<Rightarrow>
          add_dependants moduleName rest
            (upd depName (\<lambda>m. m\<lparr>dependants := dependants m @ [moduleName]\<rparr>) ms))"

fun link :: "string list \<Rightarrow> registry \<Rightarrow> exn + registry" where
  "link [] ms = Inr ms"
| "link (moduleName # rest) ms =
     (case map_of ms moduleName of
        None \<Rightarrow> Inl Type_error
      | Some m \<Rightarrow>
          (case add_dependants moduleName (dependencies m) ms of
             Inl e \<Rightarrow> Inl e
           | Inr ms' \<Rightarrow> link rest ms'))"

text \<open>
  \<^verbatim>\<open>fillNeeded\<close> is a recursive closure: it marks its module and calls itself on every
  dependency that is not yet marked. \<open>fillDeps\<close> is the same traversal with the call stack
  made explicit: its list argument holds the dependency names still to be visited by the
  \<^verbatim>\<open>for\<close> loops of the active calls, innermost loop first. A call terminates because every
  recursive call marks one more module.
\<close>

definition unmarked :: "registry \<Rightarrow> nat" where
  "unmarked ms = length (filter (\<lambda>(n, m). \<not> needed m) ms)"

function fillDeps :: "string list \<Rightarrow> registry \<Rightarrow> exn + registry" where
  "fillDeps [] ms = Inr ms"
| "fillDeps (dependencyName # rest) ms =
     (case map_of ms dependencyName of
        None \<Rightarrow> Inl Type_error
      | Some dependency \<Rightarrow>
          if needed dependency then fillDeps rest ms
          else fillDeps (dependencies dependency @ rest)
                 (upd dependencyName (\<lambda>m. m\<lparr>needed := True\<rparr>) ms))"
  by pat_completeness auto

lemma unmarked_upd_less:
  assumes "map_of ms name = Some m" and "\<not> needed m"
  shows "unmarked (upd name (\<lambda>m. m\<lparr>needed := True\<rparr>) ms) < unmarked ms"
  using assms
proof (induction ms)
  case Nil
  then show ?case by simp
next
  case (Cons a ms)
  obtain n x where a: "a = (n, x)" by (cases a)
  have le: "unmarked (upd name (\<lambda>m. m\<lparr>needed := True\<rparr>) ms) \<le> unmarked ms"
    by (induction ms) (auto simp: unmarked_def upd_def split: if_splits)
  show ?case
  proof (cases "n = name")
    case True
    with Cons.prems a have "\<not> needed x" by simp
    with True a le show ?thesis by (simp add: unmarked_def upd_def)
  next
    case False
    with Cons a show ?thesis by (auto simp: unmarked_def upd_def)
  qed
qed

termination fillDeps
  by (relation "measures [\<lambda>(ds, ms). unmarked ms, \<lambda>(ds, ms). length ds]")
     (auto simp: unmarked_upd_less)

definition fillNeeded :: "string \<Rightarrow> registry \<Rightarrow> exn + registry" where
  "fillNeeded name ms =
     (case map_of ms name of
        None \<Rightarrow> Inl Type_error
      | Some m \<Rightarrow> fillDeps (dependencies m) (upd name (\<lambda>m. m\<lparr>needed := True\<rparr>) ms))"

text \<open>Third loop: \<^verbatim>\<open>fillNeeded\<close> from every module that is marked when the loop reaches it.\<close>

fun fill_loop :: "string list \<Rightarrow> registry \<Rightarrow> exn + registry" where
  "fill_loop [] ms = Inr ms"
| "fill_loop (moduleName # rest) ms =
     (case map_of ms moduleName of
        None \<Rightarrow> Inl Type_error
      | Some m \<Rightarrow>
          if needed m then
            (case fillNeeded moduleName ms of
               Inl e \<Rightarrow> Inl e
             | Inr ms' \<Rightarrow> fill_loop rest ms')
          else fill_loop rest ms)"

definition build :: "(string \<times> ModuleDescription) list \<Rightarrow> exn + registry" where
  "build input =
     (let ms = map (\<lambda>(name, d). (name, new_module d)) input in
      case link (map fst ms) ms of
        Inl e \<Rightarrow> Inl e
      | Inr ms1 \<Rightarrow> fill_loop (map fst ms1) ms1)"


section \<open>The tree and its environment\<close>

text \<open>
  What the tree does to the outside world, in the order in which it does it: the
  notifications it emits (\<^verbatim>\<open>this.emit\<close>), what it prints with \<^verbatim>\<open>console.error\<close>, the
  deferreds it resolves, and the module operations it invokes. \<open>Invoke_init\<close> carries the
  \<^verbatim>\<open>dependenciesObject\<close> passed to the operation.
\<close>

datatype event =
    Emit_module_state string State
  | Emit_state State
  | Emit_started
  | Emit_stopped
  | Emit_error exn string
  | Console_error exn
  | Resolve nat
  | Invoke_init string "(string \<times> jsval) list"
  | Invoke_deinit string

text \<open>
  Code that has been scheduled and has not run yet: the callback that \<^verbatim>\<open>init()\<close> hands to
  \<^verbatim>\<open>Promise.resolve().then\<close>, and the continuations of the two \<^verbatim>\<open>async\<close> closures, suspended at
  \<^verbatim>\<open>await module.init(...)\<close> and at \<^verbatim>\<open>await module.deinit()\<close>.
\<close>

datatype task = Microtask | Init_op string | Deinit_op string

text \<open>
  The fields of class \<^verbatim>\<open>DepsTree\<close>, followed by the state of the runtime that the class
  reads or writes: the number of listeners registered for \<^verbatim>\<open>'error'\<close>
  (\<^verbatim>\<open>this.listenerCount('error')\<close>), the number of deferreds created so far (a deferred is
  identified by its rank of creation), the suspended tasks, and the trace of events.
  \<open>modulesToLoad\<close> has no initial value in the source; it is assigned by \<^verbatim>\<open>init()\<close> before
  any read. \<open>None\<close> for a deferred field is \<^verbatim>\<open>undefined\<close>.
\<close>

record DepsTree =
  state :: State
  modulesToUnload :: int
  errors :: "exn list"
  modules :: registry
  modulesToLoad :: int
  initDefer :: "nat option"
  deinitDefer :: "nat option"
  error_listeners :: nat
  deferreds :: nat
  pending :: "task list"
  trace :: "event list"

text \<open>What \<^verbatim>\<open>init()\<close> and \<^verbatim>\<open>deinit()\<close> return: the promise of a deferred, or \<^verbatim>\<open>Promise.resolve()\<close>.\<close>

datatype promise = Promise_of nat | Promise_resolved

definition constructor :: "(string \<times> ModuleDescription) list \<Rightarrow> exn + DepsTree" where
  "constructor input =
     (case build input of
        Inl e \<Rightarrow> Inl e
      | Inr ms \<Rightarrow>
          Inr \<lparr> state = off, modulesToUnload = 0, errors = [], modules = ms,
                modulesToLoad = 0, initDefer = None, deinitDefer = None,
                error_listeners = 0, deferreds = 0, pending = [], trace = [] \<rparr>)"

subsection \<open>Private methods\<close>

text \<open>
  Inside the methods, \<^verbatim>\<open>this.modules[name]\<close> is only read for names that are keys of the
  registry (lemma \<open>names_registered\<close> below); \<open>upd\<close> leaves the registry unchanged for any
  other name.
\<close>

definition emit :: "event \<Rightarrow> DepsTree \<Rightarrow> DepsTree" where
  "emit e t = t\<lparr>trace := trace t @ [e]\<rparr>"

definition on_module :: "string \<Rightarrow> (module \<Rightarrow> module) \<Rightarrow> DepsTree \<Rightarrow> DepsTree" where
  "on_module name f t = t\<lparr>modules := upd name f (modules t)\<rparr>"

definition changeModuleState :: "string \<Rightarrow> State \<Rightarrow> DepsTree \<Rightarrow> DepsTree" where
  "changeModuleState name s t =
     emit (Emit_module_state name s) (on_module name (\<lambda>m. m\<lparr>state_m := s\<rparr>) t)"

definition changeState :: "State \<Rightarrow> DepsTree \<Rightarrow> DepsTree" where
  "changeState s t = emit (Emit_state s) (t\<lparr>state := s\<rparr>)"

definition resolve :: "nat option \<Rightarrow> DepsTree \<Rightarrow> DepsTree" where
  "resolve d t = (case d of None \<Rightarrow> t | Some i \<Rightarrow> emit (Resolve i) t)"

definition data_of :: "DepsTree \<Rightarrow> string \<Rightarrow> jsval" where
  "data_of t name = (case map_of (modules t) name of None \<Rightarrow> JUndefined | Some m \<Rightarrow> data m)"

definition dependencies_of :: "DepsTree \<Rightarrow> string \<Rightarrow> string list" where
  "dependencies_of t name =
     (case map_of (modules t) name of None \<Rightarrow> [] | Some m \<Rightarrow> dependencies m)"

definition dependants_of :: "DepsTree \<Rightarrow> string \<Rightarrow> string list" where
  "dependants_of t name =
     (case map_of (modules t) name of None \<Rightarrow> [] | Some m \<Rightarrow> dependants m)"

text \<open>
  \<^verbatim>\<open>_initModule\<close>, up to the \<^verbatim>\<open>await\<close>: the state change, the counter, the
  \<^verbatim>\<open>dependenciesObject\<close> and the call of the operation, whose continuation is suspended.
\<close>

definition initModule :: "string \<Rightarrow> DepsTree \<Rightarrow> DepsTree" where
  "initModule name t =
     (let t1 = changeModuleState name initializing t;
          t2 = t1\<lparr>modulesToUnload := modulesToUnload t1 + 1\<rparr>;
          dependenciesObject = map (\<lambda>d. (d, data_of t2 d)) (dependencies_of t2 name);
          t3 = emit (Invoke_init name dependenciesObject) t2
      in t3\<lparr>pending := pending t3 @ [Init_op name]\<rparr>)"

text \<open>
  \<^verbatim>\<open>_deinitModule\<close>, up to the \<^verbatim>\<open>await\<close>: the state change and the call of the operation.
\<close>

definition deinitModule :: "string \<Rightarrow> DepsTree \<Rightarrow> DepsTree" where
  "deinitModule name t =
     (let t1 = changeModuleState name deinitializing t;
          t2 = emit (Invoke_deinit name) t1
      in t2\<lparr>pending := pending t2 @ [Deinit_op name]\<rparr>)"

text \<open>The loop of \<^verbatim>\<open>deinit()\<close> over the registry.\<close>

fun deinit_loop :: "string list \<Rightarrow> DepsTree \<Rightarrow> DepsTree" where
  "deinit_loop [] t = t"
| "deinit_loop (moduleName # rest) t =
     (case map_of (modules t) moduleName of
        None \<Rightarrow> deinit_loop rest t
      | Some m \<Rightarrow>
          if state_m m = up \<and> dependantsToUnload m = 0
          then deinit_loop rest (deinitModule moduleName t)
          else deinit_loop rest t)"

definition promise_of :: "nat option \<Rightarrow> exn + promise" where
  "promise_of d = (case d of None \<Rightarrow> Inl Type_error | Some i \<Rightarrow> Inr (Promise_of i))"

definition deinit :: "DepsTree \<Rightarrow> (exn + promise) \<times> DepsTree" where
  "deinit t =
     (case state t of
        off \<Rightarrow> (Inr Promise_resolved, changeState down t)
      | error \<Rightarrow> (Inr Promise_resolved, t)
      | down \<Rightarrow> (Inr Promise_resolved, t)
      | initializing \<Rightarrow>
          (let t1 = changeState deinitializing t;
               t2 = t1\<lparr>deinitDefer := Some (deferreds t1), deferreds := deferreds t1 + 1\<rparr>;
               t3 = deinit_loop (map fst (modules t2)) t2
           in (promise_of (deinitDefer t3), t3))
      | up \<Rightarrow>
          (let t1 = changeState deinitializing t;
               t2 = t1\<lparr>deinitDefer := Some (deferreds t1), deferreds := deferreds t1 + 1\<rparr>;
               t3 = deinit_loop (map fst (modules t2)) t2
           in (promise_of (deinitDefer t3), t3))
      | deinitializing \<Rightarrow> (promise_of (deinitDefer t), t))"

text \<open>
  \<^verbatim>\<open>_error\<close> (\<open>error_method\<close>: the name \<open>error\<close> is taken by a state). Its body is a
  \<^verbatim>\<open>try\<close> whose \<^verbatim>\<open>catch\<close> prints what was thrown.
  \<^item> With no \<^verbatim>\<open>'error'\<close> listener the method prints \<^verbatim>\<open>err.stack\<close>. Reading \<^verbatim>\<open>.stack\<close> of
    \<^verbatim>\<open>null\<close> or \<^verbatim>\<open>undefined\<close> throws a \<^verbatim>\<open>TypeError\<close>: the \<^verbatim>\<open>catch\<close> prints it, and the error is
    neither pushed nor followed by \<^verbatim>\<open>deinit()\<close>.
  \<^item> Otherwise the error is pushed and \<^verbatim>\<open>deinit()\<close> is called (\<open>push_and_deinit\<close>); what
    \<^verbatim>\<open>deinit()\<close> throws is printed by the \<^verbatim>\<open>catch\<close>.
  The optional \<^verbatim>\<open>name\<close> is \<open>None\<close> when the caller passes none, and \<^verbatim>\<open>name || ''\<close> is the name
  itself for every string.
\<close>

definition stack_throws :: "exn \<Rightarrow> bool" where
  "stack_throws err \<longleftrightarrow> err = Thrown JNull \<or> err = Thrown JUndefined"

definition push_and_deinit :: "exn \<Rightarrow> DepsTree \<Rightarrow> DepsTree" where
  "push_and_deinit err t1 =
     (let t2 = t1\<lparr>errors := errors t1 @ [err]\<rparr>
      in case deinit t2 of
           (Inl e, t3) \<Rightarrow> emit (Console_error e) t3
         | (Inr p, t3) \<Rightarrow> t3)"

definition error_method :: "exn \<Rightarrow> string option \<Rightarrow> DepsTree \<Rightarrow> DepsTree" where
  "error_method err name t =
     (if error_listeners t > 0
      then push_and_deinit err
             (emit (Emit_error err (case name of None \<Rightarrow> [] | Some n \<Rightarrow> n)) t)
      else if stack_throws err then emit (Console_error Type_error) t
      else push_and_deinit err (emit (Console_error err) t))"

text \<open>The loop of \<^verbatim>\<open>_moduleInited\<close> over the dependants of the module that came up.\<close>

fun dependants_loop :: "string list \<Rightarrow> DepsTree \<Rightarrow> DepsTree" where
  "dependants_loop [] t = t"
| "dependants_loop (depentantName # rest) t =
     (let t1 = on_module depentantName
                 (\<lambda>m. m\<lparr>dependenciesToLoad := dependenciesToLoad m - 1\<rparr>) t
      in case map_of (modules t1) depentantName of
           None \<Rightarrow> dependants_loop rest t1
         | Some m \<Rightarrow>
             if dependenciesToLoad m = 0
             then dependants_loop rest (initModule depentantName t1)
             else dependants_loop rest t1)"

fun count_up_loop :: "string list \<Rightarrow> DepsTree \<Rightarrow> DepsTree" where
  "count_up_loop [] t = t"
| "count_up_loop (dependencyName # rest) t =
     count_up_loop rest
       (on_module dependencyName (\<lambda>m. m\<lparr>dependantsToUnload := dependantsToUnload m + 1\<rparr>) t)"

text \<open>
  \<^verbatim>\<open>_moduleInited\<close>. The \<^verbatim>\<open>default\<close> branch throws; the result is then \<open>Inl\<close>, with the tree
  as it was.
\<close>

definition moduleInited :: "string \<Rightarrow> DepsTree \<Rightarrow> exn + DepsTree" where
  "moduleInited name t =
     (case state t of
        initializing \<Rightarrow>
          (let t1 = changeModuleState name up t;
               t2 = count_up_loop (dependencies_of t1 name) t1;
               t3 = t2\<lparr>modulesToLoad := modulesToLoad t2 - 1\<rparr>
           in if modulesToLoad t3 = 0
              then Inr (emit Emit_started (changeState up (resolve (initDefer t3) t3)))
              else Inr (dependants_loop (dependants_of t3 name) t3))
      | deinitializing \<Rightarrow> Inr (deinitModule name t)
      | _ \<Rightarrow> Inl State_error)"

text \<open>
  The continuation of \<^verbatim>\<open>_initModule\<close> after the \<^verbatim>\<open>await\<close>, when the operation succeeded with
  \<open>v\<close>: the assignment to \<^verbatim>\<open>module.data\<close>, then \<^verbatim>\<open>_moduleInited\<close>, whose exception the outer
  \<^verbatim>\<open>catch\<close> prints.
\<close>

definition init_succeeded :: "string \<Rightarrow> jsval \<Rightarrow> DepsTree \<Rightarrow> DepsTree" where
  "init_succeeded name v t =
     (let t1 = on_module name (\<lambda>m. m\<lparr>data := (if truthy (data m) then data m else v)\<rparr>) t
      in case moduleInited name t1 of
           Inl e \<Rightarrow> emit (Console_error e) t1
         | Inr t2 \<Rightarrow> t2)"

text \<open>The same continuation when the operation failed with \<open>err\<close>: the inner \<^verbatim>\<open>catch\<close>.\<close>

definition init_failed :: "string \<Rightarrow> exn \<Rightarrow> DepsTree \<Rightarrow> DepsTree" where
  "init_failed name err t =
     (let t1 = t\<lparr>modulesToUnload := modulesToUnload t - 1\<rparr>;
          t2 = changeModuleState name error t1;
          t3 = on_module name (\<lambda>m. m\<lparr>error_m := Some err\<rparr>) t2
      in error_method err (Some name) t3)"

text \<open>The loop of \<^verbatim>\<open>_deinitModule\<close> over the dependencies of the module that went down.\<close>

fun dependencies_loop :: "string list \<Rightarrow> DepsTree \<Rightarrow> DepsTree" where
  "dependencies_loop [] t = t"
| "dependencies_loop (dependencyName # rest) t =
     (let t1 = on_module dependencyName
                 (\<lambda>m. m\<lparr>dependantsToUnload := dependantsToUnload m - 1\<rparr>) t
      in case map_of (modules t1) dependencyName of
           None \<Rightarrow> dependencies_loop rest t1
         | Some m \<Rightarrow>
             if dependantsToUnload m \<le> 0
             then dependencies_loop rest (deinitModule dependencyName t1)
             else dependencies_loop rest t1)"

text \<open>
  The continuation of \<^verbatim>\<open>_deinitModule\<close> after its \<^verbatim>\<open>try\<close>/\<^verbatim>\<open>catch\<close>: the countdown of
  \<^verbatim>\<open>_modulesToUnload\<close> and either the end of the cycle or the cascade.
\<close>

definition deinit_countdown :: "string \<Rightarrow> DepsTree \<Rightarrow> DepsTree" where
  "deinit_countdown name t =
     (let t1 = t\<lparr>modulesToUnload := modulesToUnload t - 1\<rparr>
      in if modulesToUnload t1 \<le> 0
         then emit Emit_stopped (changeState down (resolve (deinitDefer t1) t1))
         else dependencies_loop (dependencies_of t1 name) t1)"

definition deinit_succeeded :: "string \<Rightarrow> DepsTree \<Rightarrow> DepsTree" where
  "deinit_succeeded name t = deinit_countdown name (changeModuleState name down t)"

definition deinit_failed :: "string \<Rightarrow> exn \<Rightarrow> DepsTree \<Rightarrow> DepsTree" where
  "deinit_failed name err t =
     (let t1 = changeModuleState name error t;
          t2 = on_module name (\<lambda>m. m\<lparr>error_m := Some err\<rparr>) t1;
          t3 = error_method err (Some name) t2
      in deinit_countdown name t3)"

subsection \<open>Public methods\<close>

text \<open>The callback that \<^verbatim>\<open>init()\<close> schedules: the loop over the registry.\<close>

fun init_loop :: "string list \<Rightarrow> DepsTree \<Rightarrow> DepsTree" where
  "init_loop [] t = t"
| "init_loop (name # rest) t =
     (case map_of (modules t) name of
        None \<Rightarrow> init_loop rest t
      | Some m \<Rightarrow>
          if needed m then
            (let t1 = t\<lparr>modulesToLoad := modulesToLoad t + 1\<rparr>
             in if dependenciesToLoad m = 0
                then init_loop rest (initModule name t1)
                else init_loop rest t1)
          else init_loop rest t)"

definition init_callback :: "DepsTree \<Rightarrow> DepsTree" where
  "init_callback t = init_loop (map fst (modules t)) t"

text \<open>
  \<^verbatim>\<open>init()\<close>: the result is the exception thrown (\<open>Inl\<close>) or the promise returned; a read of
  \<^verbatim>\<open>.promise\<close> on an \<^verbatim>\<open>undefined\<close> deferred is a \<^verbatim>\<open>TypeError\<close>.
\<close>

definition init :: "DepsTree \<Rightarrow> (exn + promise) \<times> DepsTree" where
  "init t =
     (case state t of
        off \<Rightarrow>
          (let t1 = changeState initializing t;
               t2 = t1\<lparr>initDefer := Some (deferreds t1), deferreds := deferreds t1 + 1\<rparr>;
               t3 = t2\<lparr>modulesToLoad := 0\<rparr>;
               t4 = t3\<lparr>pending := pending t3 @ [Microtask]\<rparr>
           in (promise_of (initDefer t4), t4))
      | initializing \<Rightarrow> (promise_of (initDefer t), t)
      | up \<Rightarrow> (Inr Promise_resolved, t)
      | _ \<Rightarrow> (Inl Cant_init_tree, t))"


subsection \<open>Runs\<close>

text \<open>
  The tree is driven by its caller and by the runtime. An action is a call of a public
  method, the registration or removal of an \<^verbatim>\<open>'error'\<close> listener, or the resumption of a
  suspended task: the scheduled callback, or the continuation of a module operation with
  its outcome. Module operations are taken to be asynchronous (they return; their outcome
  arrives later), and listeners and operations do not call back into the tree.
  An action that resumes a task that is not suspended is not possible (\<open>None\<close>).
\<close>

datatype action =
    Call_init
  | Call_deinit
  | Run_microtask
  | Init_resolves string jsval
  | Init_rejects string exn
  | Deinit_resolves string
  | Deinit_rejects string exn
  | Add_error_listener
  | Remove_error_listener

definition resume :: "task \<Rightarrow> DepsTree \<Rightarrow> DepsTree option" where
  "resume k t =
     (if k \<in> set (pending t) then Some (t\<lparr>pending := remove1 k (pending t)\<rparr>) else None)"

fun step :: "action \<Rightarrow> DepsTree \<Rightarrow> DepsTree option" where
  "step Call_init t = Some (snd (init t))"
| "step Call_deinit t = Some (snd (deinit t))"
| "step Run_microtask t = map_option init_callback (resume Microtask t)"
| "step (Init_resolves name v) t = map_option (init_succeeded name v) (resume (Init_op name) t)"
| "step (Init_rejects name err) t = map_option (init_failed name err) (resume (Init_op name) t)"
| "step (Deinit_resolves name) t = map_option (deinit_succeeded name) (resume (Deinit_op name) t)"
| "step (Deinit_rejects name err) t =
     map_option (deinit_failed name err) (resume (Deinit_op name) t)"
| "step Add_error_listener t = Some (t\<lparr>error_listeners := error_listeners t + 1\<rparr>)"
| "step Remove_error_listener t = Some (t\<lparr>error_listeners := error_listeners t - 1\<rparr>)"

fun run :: "action list \<Rightarrow> DepsTree \<Rightarrow> DepsTree option" where
  "run [] t = Some t"
| "run (a # as) t = (case step a t of None \<Rightarrow> None | Some t' \<Rightarrow> run as t')"

text \<open>Constructing a tree and driving it; \<open>None\<close> when either is not possible.\<close>

definition run_from :: "(string \<times> ModuleDescription) list \<Rightarrow> action list \<Rightarrow> DepsTree option" where
  "run_from input acts = (case constructor input of Inl e \<Rightarrow> None | Inr t0 \<Rightarrow> run acts t0)"


section \<open>Example trees\<close>

definition described :: "string list \<Rightarrow> bool \<Rightarrow> ModuleDescription" where
  "described ds n = \<lparr>deps = Some ds, seed = JUndefined, needed_flag = Some n\<rparr>"

text \<open>
  The diamond: \<open>a\<close> has no dependency, \<open>b\<close> and \<open>c\<close> depend on \<open>a\<close>, \<open>d\<close> depends on \<open>b\<close> and
  \<open>c\<close>, and only \<open>d\<close> is marked needed.
\<close>

definition diamond :: "(string \<times> ModuleDescription) list" where
  "diamond = [(''a'', described [] False), (''b'', described [''a''] False),
              (''c'', described [''a''] False), (''d'', described [''b'', ''c''] True)]"

text \<open>A run of the diamond in which \<open>c\<close> fails to initialize and the tree rolls back.\<close>

definition diamond_rollback :: "action list" where
  "diamond_rollback =
     [Call_init, Run_microtask, Init_resolves ''a'' (JNum 1), Init_resolves ''b'' (JNum 2),
      Init_rejects ''c'' (Thrown (JStr ''boom'')), Deinit_resolves ''b'', Deinit_resolves ''a'']"

text \<open>A single needed module, whose initialization fails.\<close>

definition lonely :: "(string \<times> ModuleDescription) list" where
  "lonely = [(''a'', described [] True)]"

definition lonely_failure :: "action list" where
  "lonely_failure = [Call_init, Run_microtask, Init_rejects ''a'' (Thrown (JStr ''boom''))]"

text \<open>The same module, with \<^verbatim>\<open>deinit()\<close> called while its initialization is in flight.\<close>

definition lonely_interrupted :: "action list" where
  "lonely_interrupted = [Call_init, Run_microtask, Call_deinit, Init_resolves ''a'' (JNum 1)]"

text \<open>
  Five needed modules: \<open>B\<close> and \<open>D\<close> depend on \<open>A\<close>, \<open>E\<close> depends on \<open>D\<close>, \<open>F\<close> stands alone.
  In the run, \<open>A\<close>, \<open>D\<close> and \<open>E\<close> are up and \<open>B\<close> is in flight when \<open>F\<close> fails; then \<open>B\<close>
  completes and its deinit operation completes.
\<close>

definition chain :: "(string \<times> ModuleDescription) list" where
  "chain = [(''A'', described [] True), (''B'', described [''A''] True),
            (''D'', described [''A''] True), (''E'', described [''D''] True),
            (''F'', described [] True)]"

definition chain_race :: "action list" where
  "chain_race =
     [Call_init, Run_microtask, Init_resolves ''A'' (JNum 1), Init_resolves ''D'' (JNum 2),
      Init_resolves ''E'' (JNum 3), Init_rejects ''F'' (Thrown (JObj 0)),
      Init_resolves ''B'' (JNum 4), Deinit_resolves ''B'']"

text \<open>
  Three needed modules: \<open>B\<close> depends on \<open>A\<close>, \<open>G\<close> stands alone. In the run, \<^verbatim>\<open>deinit()\<close> is
  called while \<open>B\<close> and \<open>G\<close> are in flight; \<open>B\<close> completes and is deinitialized, which starts a
  second deinitialization of \<open>A\<close>; when both have completed, \<open>G\<close> is still in flight.
\<close>

definition trio :: "(string \<times> ModuleDescription) list" where
  "trio = [(''A'', described [] True), (''B'', described [''A''] True),
           (''G'', described [] True)]"

definition trio_race :: "action list" where
  "trio_race =
     [Call_init, Run_microtask, Init_resolves ''A'' (JNum 1), Call_deinit,
      Init_resolves ''B'' (JNum 2), Deinit_resolves ''B'', Deinit_resolves ''A'',
      Deinit_resolves ''A'']"

text \<open>
  Two independent needed modules. In the run, \<open>p\<close> is up and \<open>q\<close> is in flight when
  \<^verbatim>\<open>deinit()\<close> is called; the deinit operation of \<open>p\<close> fails, then the init operation of
  \<open>q\<close> fails.
\<close>

definition pair :: "(string \<times> ModuleDescription) list" where
  "pair = [(''p'', described [] True), (''q'', described [] True)]"

definition pair_failures :: "action list" where
  "pair_failures =
     [Call_init, Run_microtask, Init_resolves ''p'' (JNum 1), Call_deinit,
      Deinit_rejects ''p'' (Thrown (JStr ''late'')), Init_rejects ''q'' (Thrown (JStr ''boom''))]"

text \<open>A module that names a dependency which is not a module, but a property of every object.\<close>

definition inherited_dependency :: "(string \<times> ModuleDescription) list" where
  "inherited_dependency = [(''a'', described [''toString''] True)]"

text \<open>A module with the seed \<^verbatim>\<open>0\<close>, whose init operation returns \<^verbatim>\<open>5\<close>.\<close>

definition seeded_zero :: "(string \<times> ModuleDescription) list" where
  "seeded_zero = [(''a'', \<lparr>deps = None, seed = JNum 0, needed_flag = Some True\<rparr>)]"

definition seeded_zero_init :: "action list" where
  "seeded_zero_init = [Call_init, Run_microtask, Init_resolves ''a'' (JNum 5)]"

text \<open>A module with the seed \<^verbatim>\<open>'x'\<close>, whose init operation returns \<^verbatim>\<open>5\<close>.\<close>

definition seeded_text :: "(string \<times> ModuleDescription) list" where
  "seeded_text = [(''a'', \<lparr>deps = None, seed = JStr ''x'', needed_flag = Some True\<rparr>)]"


section \<open>Notions used in the proofs\<close>

fun module_event :: "event \<Rightarrow> bool" where
  "module_event (Emit_module_state n s) = True"
| "module_event (Invoke_init n d) = True"
| "module_event (Invoke_deinit n) = True"
| "module_event e = False"

definition scheduling :: "DepsTree \<Rightarrow> DepsTree \<Rightarrow> bool" where
  "scheduling t t' \<longleftrightarrow>
     state t' = state t \<and> errors t' = errors t \<and> initDefer t' = initDefer t \<and>
     deinitDefer t' = deinitDefer t \<and> error_listeners t' = error_listeners t \<and>
     deferreds t' = deferreds t \<and> map fst (modules t') = map fst (modules t) \<and>
     (\<exists>s. trace t' = trace t @ s \<and> list_all module_event s)"

fun stepwise :: "event list \<Rightarrow> bool" where
  "stepwise [] = True"
| "stepwise (Emit_state s # r) =
     (s \<noteq> off \<and> s \<noteq> error \<and> (s = up \<longrightarrow> r \<noteq> [] \<and> hd r = Emit_started) \<and>
      (s = down \<longrightarrow> r \<noteq> [] \<and> hd r = Emit_stopped) \<and> stepwise r)"
| "stepwise (e # r) = stepwise r"

fun tree_state_after :: "State \<Rightarrow> event \<Rightarrow> State" where
  "tree_state_after s (Emit_state s') = s'"
| "tree_state_after s e = s"

definition after :: "DepsTree \<Rightarrow> DepsTree \<Rightarrow> bool" where
  "after t t' \<longleftrightarrow>
     state t' \<noteq> off \<and> state t' \<noteq> error \<and> initDefer t' = initDefer t \<and>
     deferreds t \<le> deferreds t' \<and>
     (deinitDefer t' = deinitDefer t \<or>
      (\<exists>d. deinitDefer t' = Some d \<and> deferreds t \<le> d \<and> d < deferreds t')) \<and>
     map fst (modules t') = map fst (modules t) \<and>
     (\<exists>s. trace t' = trace t @ s \<and> stepwise s \<and>
          state t' = foldl tree_state_after (state t) s)"

definition fresh :: "DepsTree \<Rightarrow> bool" where
  "fresh t \<longleftrightarrow>
     state t = off \<and> pending t = [] \<and> trace t = [] \<and> initDefer t = None \<and>
     deinitDefer t = None \<and> deferreds t = 0"

definition begun :: "DepsTree \<Rightarrow> bool" where
  "begun t \<longleftrightarrow>
     state t \<noteq> off \<and> state t \<noteq> error \<and> stepwise (trace t) \<and>
     (\<exists>r. trace t = Emit_state initializing # r)"

definition shut :: "DepsTree \<Rightarrow> bool" where
  "shut t \<longleftrightarrow> state t = down \<and> pending t = [] \<and> trace t = [Emit_state down]"

fun module_state_after :: "string \<Rightarrow> State \<Rightarrow> event \<Rightarrow> State" where
  "module_state_after n s (Emit_module_state n' s') = (if n' = n then s' else s)"
| "module_state_after n s e = s"

definition notified_state :: "string \<Rightarrow> event list \<Rightarrow> State" where
  "notified_state n tr = foldl (module_state_after n) off tr"

definition tracked :: "DepsTree \<Rightarrow> bool" where
  "tracked t \<longleftrightarrow> (\<forall>(n, m) \<in> set (modules t). state_m m = notified_state n (trace t))"

definition core :: "module \<Rightarrow> module" where
  "core m = m\<lparr>dependants := [], needed := False\<rparr>"

definition deps_in :: "registry \<Rightarrow> string \<Rightarrow> string list" where
  "deps_in ms n = (case map_of ms n of None \<Rightarrow> [] | Some m \<Rightarrow> dependencies m)"

definition needed_in :: "registry \<Rightarrow> string \<Rightarrow> bool" where
  "needed_in ms n = (case map_of ms n of None \<Rightarrow> False | Some m \<Rightarrow> needed m)"

definition edges :: "registry \<Rightarrow> (string \<times> string) set" where
  "edges ms = {(x, y). y \<in> set (deps_in ms x)}"

definition depends_on :: "(string \<times> ModuleDescription) list \<Rightarrow> (string \<times> string) set" where
  "depends_on input =
     {(x, y). \<exists>d. (x, d) \<in> set input \<and> y \<in> set (case deps d of None \<Rightarrow> [] | Some ds \<Rightarrow> ds)}"

definition marked_needed :: "(string \<times> ModuleDescription) list \<Rightarrow> string \<Rightarrow> bool" where
  "marked_needed input r \<longleftrightarrow> (\<exists>d. (r, d) \<in> set input \<and> needed_flag d = Some True)"

fun is_invoke :: "string \<Rightarrow> event \<Rightarrow> bool" where
  "is_invoke n (Invoke_init n' obj) = (n' = n)"
| "is_invoke n e = False"

definition invocations :: "string \<Rightarrow> event list \<Rightarrow> nat" where
  "invocations n tr = length (filter (is_invoke n) tr)"

definition was_up :: "string \<Rightarrow> event list \<Rightarrow> bool" where
  "was_up n tr \<longleftrightarrow> Emit_module_state n up \<in> set tr"

definition each_after :: "(event \<Rightarrow> event list \<Rightarrow> bool) \<Rightarrow> event list \<Rightarrow> bool" where
  "each_after \<Phi> tr \<longleftrightarrow> (\<forall>i < length tr. \<Phi> (tr ! i) (take i tr))"

definition dants_in :: "registry \<Rightarrow> string \<Rightarrow> string list" where
  "dants_in ms n = (case map_of ms n of None \<Rightarrow> [] | Some m \<Rightarrow> dependants m)"

definition statics :: "registry \<Rightarrow> (string \<times> string list \<times> string list \<times> bool) list" where
  "statics ms = map (\<lambda>(n, m). (n, dependencies m, dependants m, needed m)) ms"

definition linked :: "registry \<Rightarrow> bool" where
  "linked ms \<longleftrightarrow>
     distinct (map fst ms) \<and>
     (\<forall>x d. count_list (dants_in ms d) x = count_list (deps_in ms x) d)"

definition once :: "task list \<Rightarrow> event list \<Rightarrow> bool" where
  "once pd tr \<longleftrightarrow>
     count_list pd Microtask \<le> 1 \<and>
     (Microtask \<in> set pd \<longrightarrow> (\<forall>n. invocations n tr = 0)) \<and>
     (\<forall>n. count_list pd (Init_op n) + (if was_up n tr then 1 else 0) \<le> invocations n tr \<and>
          invocations n tr \<le> 1) \<and>
     (\<forall>n. Deinit_op n \<in> set pd \<longrightarrow> 0 < invocations n tr \<and> Init_op n \<notin> set pd)"

definition counted :: "string list \<Rightarrow> registry \<Rightarrow> registry \<Rightarrow> task list \<Rightarrow> event list \<Rightarrow> bool" where
  "counted rest ms0 ms pd tr \<longleftrightarrow>
     (\<forall>n m. map_of ms n = Some m \<longrightarrow>
        (0 < invocations n tr \<longrightarrow> dependenciesToLoad m \<le> 0) \<and>
        int (length (filter (\<lambda>d. \<not> was_up d tr) (dependencies m))) + int (count_list rest n)
          \<le> dependenciesToLoad m \<and>
        (Init_op n \<in> set pd \<longrightarrow> state_m m = initializing) \<and>
        (state_m m = up \<longrightarrow> was_up n tr) \<and>
        (invocations n tr = 0 \<or> Init_op n \<in> set pd \<longrightarrow>
           Some (data m) = map_option data (map_of ms0 n)))"

definition in_order :: "registry \<Rightarrow> event list \<Rightarrow> bool" where
  "in_order ms tr \<longleftrightarrow>
     each_after (\<lambda>e pre. \<forall>n obj. e = Invoke_init n obj \<longrightarrow>
                   (\<forall>d \<in> set (deps_in ms n). was_up d pre)) tr \<and>
     (\<forall>n. 0 < invocations n tr \<longrightarrow> n \<in> fst ` set ms)"

definition progress :: "string list \<Rightarrow> DepsTree \<Rightarrow> DepsTree \<Rightarrow> bool" where
  "progress rest t0 t \<longleftrightarrow>
     statics (modules t) = statics (modules t0) \<and> linked (modules t0) \<and>
     once (pending t) (trace t) \<and>
     counted rest (modules t0) (modules t) (pending t) (trace t) \<and>
     in_order (modules t0) (trace t)"

section \<open>Basic facts\<close>

lemma run_append: "run (as @ bs) t = (case run as t of None \<Rightarrow> None | Some t' \<Rightarrow> run bs t')"
  by (induction as arbitrary: t) (auto split: option.splits)

lemma run_snoc: "run (as @ [a]) t = (case run as t of None \<Rightarrow> None | Some t' \<Rightarrow> step a t')"
  by (simp add: run_append split: option.splits)

lemma run_invariant:
  assumes "run acts t0 = Some t" and "P t0"
    and "\<And>a u u'. P u \<Longrightarrow> step a u = Some u' \<Longrightarrow> P u'"
  shows "P t"
  using assms(1,2)
proof (induction acts arbitrary: t0)
  case Nil
  then show ?case by simp
next
  case (Cons a acts)
  then show ?case by (auto split: option.splits intro: assms(3))
qed

lemma map_fst_upd [simp]: "map fst (upd name f ms) = map fst ms"
  by (induction ms) (auto simp: upd_def)

lemma map_of_upd:
  "map_of (upd name f ms) n = (if n = name then map_option f (map_of ms n) else map_of ms n)"
  by (induction ms) (auto simp: upd_def)

lemma emit_fields [simp]:
  "state (emit e t) = state t" "modulesToUnload (emit e t) = modulesToUnload t"
  "errors (emit e t) = errors t" "modules (emit e t) = modules t"
  "modulesToLoad (emit e t) = modulesToLoad t" "initDefer (emit e t) = initDefer t"
  "deinitDefer (emit e t) = deinitDefer t" "error_listeners (emit e t) = error_listeners t"
  "deferreds (emit e t) = deferreds t" "pending (emit e t) = pending t"
  "trace (emit e t) = trace t @ [e]"
  by (simp_all add: emit_def)

lemma on_module_fields [simp]:
  "state (on_module n f t) = state t" "modulesToUnload (on_module n f t) = modulesToUnload t"
  "errors (on_module n f t) = errors t" "modules (on_module n f t) = upd n f (modules t)"
  "modulesToLoad (on_module n f t) = modulesToLoad t" "initDefer (on_module n f t) = initDefer t"
  "deinitDefer (on_module n f t) = deinitDefer t"
  "error_listeners (on_module n f t) = error_listeners t"
  "deferreds (on_module n f t) = deferreds t" "pending (on_module n f t) = pending t"
  "trace (on_module n f t) = trace t"
  by (simp_all add: on_module_def)

lemma changeModuleState_fields [simp]:
  "state (changeModuleState n s t) = state t"
  "modulesToUnload (changeModuleState n s t) = modulesToUnload t"
  "errors (changeModuleState n s t) = errors t"
  "modules (changeModuleState n s t) = upd n (\<lambda>m. m\<lparr>state_m := s\<rparr>) (modules t)"
  "modulesToLoad (changeModuleState n s t) = modulesToLoad t"
  "initDefer (changeModuleState n s t) = initDefer t"
  "deinitDefer (changeModuleState n s t) = deinitDefer t"
  "error_listeners (changeModuleState n s t) = error_listeners t"
  "deferreds (changeModuleState n s t) = deferreds t"
  "pending (changeModuleState n s t) = pending t"
  "trace (changeModuleState n s t) = trace t @ [Emit_module_state n s]"
  by (simp_all add: changeModuleState_def)

lemma changeState_fields [simp]:
  "state (changeState s t) = s"
  "modulesToUnload (changeState s t) = modulesToUnload t"
  "errors (changeState s t) = errors t"
  "modules (changeState s t) = modules t"
  "modulesToLoad (changeState s t) = modulesToLoad t"
  "initDefer (changeState s t) = initDefer t"
  "deinitDefer (changeState s t) = deinitDefer t"
  "error_listeners (changeState s t) = error_listeners t"
  "deferreds (changeState s t) = deferreds t"
  "pending (changeState s t) = pending t"
  "trace (changeState s t) = trace t @ [Emit_state s]"
  by (simp_all add: changeState_def)

lemma resolve_fields [simp]:
  "state (resolve d t) = state t"
  "modulesToUnload (resolve d t) = modulesToUnload t"
  "errors (resolve d t) = errors t"
  "modules (resolve d t) = modules t"
  "modulesToLoad (resolve d t) = modulesToLoad t"
  "initDefer (resolve d t) = initDefer t"
  "deinitDefer (resolve d t) = deinitDefer t"
  "error_listeners (resolve d t) = error_listeners t"
  "deferreds (resolve d t) = deferreds t"
  "pending (resolve d t) = pending t"
  "trace (resolve d t) = trace t @ (case d of None \<Rightarrow> [] | Some i \<Rightarrow> [Resolve i])"
  by (simp_all add: resolve_def split: option.splits)

lemma initModule_fields [simp]:
  "state (initModule n t) = state t"
  "modulesToUnload (initModule n t) = modulesToUnload t + 1"
  "errors (initModule n t) = errors t"
  "modules (initModule n t) = upd n (\<lambda>m. m\<lparr>state_m := initializing\<rparr>) (modules t)"
  "modulesToLoad (initModule n t) = modulesToLoad t"
  "initDefer (initModule n t) = initDefer t"
  "deinitDefer (initModule n t) = deinitDefer t"
  "error_listeners (initModule n t) = error_listeners t"
  "deferreds (initModule n t) = deferreds t"
  "pending (initModule n t) = pending t @ [Init_op n]"
  by (simp_all add: initModule_def Let_def)

lemma trace_initModule:
  "trace (initModule n t) = trace t @
     [Emit_module_state n initializing,
      Invoke_init n (map (\<lambda>d. (d, data_of (changeModuleState n initializing t) d))
                       (dependencies_of (changeModuleState n initializing t) n))]"
  by (simp add: initModule_def Let_def data_of_def dependencies_of_def)

lemma deinitModule_fields [simp]:
  "state (deinitModule n t) = state t"
  "modulesToUnload (deinitModule n t) = modulesToUnload t"
  "errors (deinitModule n t) = errors t"
  "modules (deinitModule n t) = upd n (\<lambda>m. m\<lparr>state_m := deinitializing\<rparr>) (modules t)"
  "modulesToLoad (deinitModule n t) = modulesToLoad t"
  "initDefer (deinitModule n t) = initDefer t"
  "deinitDefer (deinitModule n t) = deinitDefer t"
  "error_listeners (deinitModule n t) = error_listeners t"
  "deferreds (deinitModule n t) = deferreds t"
  "pending (deinitModule n t) = pending t @ [Deinit_op n]"
  "trace (deinitModule n t) = trace t @ [Emit_module_state n deinitializing, Invoke_deinit n]"
  by (simp_all add: deinitModule_def Let_def)

section \<open>Loops preserve what their bodies preserve\<close>

lemma init_loop_preserves:
  assumes "P t"
    and "\<And>u. P u \<Longrightarrow> P (u\<lparr>modulesToLoad := modulesToLoad u + 1\<rparr>)"
    and "\<And>n u. P u \<Longrightarrow> P (initModule n u)"
  shows "P (init_loop ns t)"
  using assms(1)
  by (induction ns arbitrary: t) (auto simp: Let_def assms(2,3) split: option.splits)

lemma deinit_loop_preserves:
  assumes "P t" and "\<And>n u. P u \<Longrightarrow> P (deinitModule n u)"
  shows "P (deinit_loop ns t)"
  using assms(1)
  by (induction ns arbitrary: t) (auto simp: assms(2) split: option.splits)

lemma count_up_loop_preserves:
  assumes "P t"
    and "\<And>n u. P u \<Longrightarrow>
           P (on_module n (\<lambda>m. m\<lparr>dependantsToUnload := dependantsToUnload m + 1\<rparr>) u)"
  shows "P (count_up_loop ns t)"
  using assms(1)
  by (induction ns arbitrary: t) (auto simp: assms(2))

lemma dependants_loop_preserves:
  assumes "P t"
    and "\<And>n u. P u \<Longrightarrow>
           P (on_module n (\<lambda>m. m\<lparr>dependenciesToLoad := dependenciesToLoad m - 1\<rparr>) u)"
    and "\<And>n u. P u \<Longrightarrow> P (initModule n u)"
  shows "P (dependants_loop ns t)"
  using assms(1)
proof (induction ns arbitrary: t)
  case Nil
  then show ?case by simp
next
  case (Cons n ns)
  let ?t1 = "on_module n (\<lambda>m. m\<lparr>dependenciesToLoad := dependenciesToLoad m - 1\<rparr>) t"
  have "P ?t1" using Cons.prems by (rule assms(2))
  moreover have "P (initModule n ?t1)" using \<open>P ?t1\<close> by (rule assms(3))
  ultimately show ?case
    by (auto simp: Let_def simp del: on_module_fields intro!: Cons.IH split: option.splits)
qed

lemma dependencies_loop_preserves:
  assumes "P t"
    and "\<And>n u. P u \<Longrightarrow>
           P (on_module n (\<lambda>m. m\<lparr>dependantsToUnload := dependantsToUnload m - 1\<rparr>) u)"
    and "\<And>n u. P u \<Longrightarrow> P (deinitModule n u)"
  shows "P (dependencies_loop ns t)"
  using assms(1)
proof (induction ns arbitrary: t)
  case Nil
  then show ?case by simp
next
  case (Cons n ns)
  let ?t1 = "on_module n (\<lambda>m. m\<lparr>dependantsToUnload := dependantsToUnload m - 1\<rparr>) t"
  have "P ?t1" using Cons.prems by (rule assms(2))
  moreover have "P (deinitModule n ?t1)" using \<open>P ?t1\<close> by (rule assms(3))
  ultimately show ?case
    by (auto simp: Let_def simp del: on_module_fields intro!: Cons.IH split: option.splits)
qed

section \<open>Module-level scheduling leaves the tree level alone\<close>

lemma scheduling_refl: "scheduling t t"
  by (simp add: scheduling_def)

lemma scheduling_on_module: "scheduling t u \<Longrightarrow> scheduling t (on_module n f u)"
  by (simp add: scheduling_def)

lemma scheduling_initModule: "scheduling t u \<Longrightarrow> scheduling t (initModule n u)"
  by (auto simp: scheduling_def trace_initModule)

lemma scheduling_deinitModule: "scheduling t u \<Longrightarrow> scheduling t (deinitModule n u)"
  by (auto simp: scheduling_def)

lemma scheduling_changeModuleState: "scheduling t u \<Longrightarrow> scheduling t (changeModuleState n s u)"
  by (auto simp: scheduling_def)

lemma scheduling_init_loop: "scheduling t (init_loop ns t)"
  by (rule init_loop_preserves) (auto simp: scheduling_refl scheduling_initModule, simp add: scheduling_def)

lemma scheduling_deinit_loop: "scheduling t (deinit_loop ns t)"
  by (rule deinit_loop_preserves) (auto simp: scheduling_refl scheduling_deinitModule)

lemma scheduling_count_up_loop: "scheduling t (count_up_loop ns t)"
  by (rule count_up_loop_preserves) (auto simp: scheduling_refl scheduling_on_module)

lemma scheduling_dependants_loop: "scheduling t (dependants_loop ns t)"
  by (rule dependants_loop_preserves)
     (auto simp: scheduling_refl scheduling_on_module scheduling_initModule)

lemma scheduling_dependencies_loop: "scheduling t (dependencies_loop ns t)"
  by (rule dependencies_loop_preserves)
     (auto simp: scheduling_refl scheduling_on_module scheduling_deinitModule)

section \<open>What one piece of the tree's code adds to the trace\<close>

lemma stepwise_append: "stepwise a \<Longrightarrow> stepwise b \<Longrightarrow> stepwise (a @ b)"
  by (induction a rule: stepwise.induct) auto

lemma stepwise_module_events: "list_all module_event s \<Longrightarrow> stepwise s"
  by (induction s rule: stepwise.induct) auto

lemma tree_state_after_module_events:
  "list_all module_event s \<Longrightarrow> foldl tree_state_after st s = st"
  by (induction s arbitrary: st rule: stepwise.induct) auto

lemma after_trans:
  assumes "after t u" and "after u v"
  shows "after t v"
proof -
  obtain s1 where s1: "trace u = trace t @ s1" "stepwise s1"
    "state u = foldl tree_state_after (state t) s1"
    using assms(1) by (auto simp: after_def)
  obtain s2 where s2: "trace v = trace u @ s2" "stepwise s2"
    "state v = foldl tree_state_after (state u) s2"
    using assms(2) by (auto simp: after_def)
  have "trace v = trace t @ (s1 @ s2) \<and> stepwise (s1 @ s2) \<and>
        state v = foldl tree_state_after (state t) (s1 @ s2)"
    using s1 s2 by (simp add: stepwise_append)
  then have "\<exists>s. trace v = trace t @ s \<and> stepwise s \<and>
        state v = foldl tree_state_after (state t) s" by blast
  moreover have "deinitDefer v = deinitDefer t \<or>
      (\<exists>d. deinitDefer v = Some d \<and> deferreds t \<le> d \<and> d < deferreds v)"
    using assms by (auto simp: after_def)
  ultimately show ?thesis using assms by (simp add: after_def)
qed

lemma after_scheduling:
  "scheduling t u \<Longrightarrow> state t \<noteq> off \<Longrightarrow> state t \<noteq> error \<Longrightarrow> after t u"
  by (auto simp: after_def scheduling_def tree_state_after_module_events
           intro: stepwise_module_events)

lemma after_deinit:
  assumes "state t \<noteq> off" "state t \<noteq> error"
  shows "after t (snd (deinit t))"
proof -
  have *: "after t (deinit_loop ns
             (changeState deinitializing t\<lparr>deinitDefer := Some (deferreds t),
                deferreds := deferreds t + 1\<rparr>))" for ns
  proof -
    let ?t2 = "changeState deinitializing t\<lparr>deinitDefer := Some (deferreds t),
                deferreds := deferreds t + 1\<rparr>"
    have "after t ?t2" by (simp add: after_def)
    moreover have "after ?t2 (deinit_loop ns ?t2)"
      by (rule after_scheduling[OF scheduling_deinit_loop]) simp_all
    ultimately show ?thesis by (rule after_trans)
  qed
  show ?thesis
    using assms * by (cases "state t") (simp_all add: deinit_def Let_def after_def)
qed

lemma after_init:
  assumes "state t \<noteq> off" "state t \<noteq> error"
  shows "snd (init t) = t"
  using assms by (cases "state t") (simp_all add: init_def)

lemma after_refl: "state t \<noteq> off \<Longrightarrow> state t \<noteq> error \<Longrightarrow> after t t"
  by (simp add: after_def)

lemma push_and_deinit_cases:
  obtains "push_and_deinit err t = snd (deinit (t\<lparr>errors := errors t @ [err]\<rparr>))"
  | e where "push_and_deinit err t =
               emit (Console_error e) (snd (deinit (t\<lparr>errors := errors t @ [err]\<rparr>)))"
  by (cases "deinit (t\<lparr>errors := errors t @ [err]\<rparr>)";
      cases "fst (deinit (t\<lparr>errors := errors t @ [err]\<rparr>))")
     (auto simp: push_and_deinit_def Let_def)

lemma after_push_and_deinit:
  assumes "state t \<noteq> off" "state t \<noteq> error"
  shows "after t (push_and_deinit err t)"
proof -
  let ?t2 = "t\<lparr>errors := errors t @ [err]\<rparr>"
  have a: "after t ?t2" using assms by (simp add: after_def)
  have "after ?t2 (snd (deinit ?t2))" using assms by (intro after_deinit) simp_all
  with a have b: "after t (snd (deinit ?t2))" by (rule after_trans)
  then have c: "after (snd (deinit ?t2)) (emit (Console_error e) (snd (deinit ?t2)))" for e
    by (simp add: after_def)
  show ?thesis
    by (cases rule: push_and_deinit_cases[of err t]) (auto intro: b after_trans[OF b c])
qed

lemma after_error_method:
  assumes "state t \<noteq> off" "state t \<noteq> error"
  shows "after t (error_method err name t)"
proof -
  have p: "after t (push_and_deinit err (emit x t))" if "after t (emit x t)" for x
  proof -
    have "after (emit x t) (push_and_deinit err (emit x t))"
      using assms by (intro after_push_and_deinit) simp_all
    with that show ?thesis by (rule after_trans)
  qed
  have e: "after t (emit (Emit_error x n) t)" "after t (emit (Console_error x) t)" for x n
    using assms by (simp_all add: after_def)
  show ?thesis by (simp add: error_method_def e p)
qed

lemma after_moduleInited:
  assumes "state t \<noteq> off" "state t \<noteq> error" "moduleInited name t = Inr t'"
  shows "after t t'"
proof (cases "state t")
  case initializing
  let ?t1 = "changeModuleState name up t"
  let ?t2 = "count_up_loop (dependencies_of ?t1 name) ?t1"
  let ?t3 = "?t2\<lparr>modulesToLoad := modulesToLoad ?t2 - 1\<rparr>"
  have 1: "scheduling t ?t1" by (simp add: scheduling_changeModuleState scheduling_refl)
  have 2: "scheduling ?t1 ?t2" by (rule scheduling_count_up_loop)
  have 3: "scheduling ?t2 ?t3" by (simp add: scheduling_def)
  have s3: "scheduling t ?t3" using 1 2 3 by (auto simp: scheduling_def)
  then have a3: "after t ?t3" using assms(1,2) by (rule after_scheduling)
  have st3: "state ?t3 = initializing" using s3 initializing by (simp add: scheduling_def)
  show ?thesis
  proof (cases "modulesToLoad ?t3 = 0")
    case True
    then have t': "t' = emit Emit_started (changeState up (resolve (initDefer ?t3) ?t3))"
      using assms(3) initializing by (simp add: moduleInited_def Let_def)
    have "after ?t3 t'"
      unfolding t' by (auto simp: after_def split: option.splits)
    with a3 show ?thesis by (rule after_trans)
  next
    case False
    then have t': "t' = dependants_loop (dependants_of ?t3 name) ?t3"
      using assms(3) initializing by (simp add: moduleInited_def Let_def)
    have "after ?t3 t'"
      unfolding t' using st3 by (intro after_scheduling scheduling_dependants_loop) simp_all
    with a3 show ?thesis by (rule after_trans)
  qed
next
  case deinitializing
  then have "t' = deinitModule name t" using assms(3) by (simp add: moduleInited_def)
  then show ?thesis
    using assms(1,2) by (auto intro!: after_scheduling scheduling_deinitModule scheduling_refl)
qed (use assms in \<open>simp_all add: moduleInited_def\<close>)

lemma after_init_succeeded:
  assumes "state t \<noteq> off" "state t \<noteq> error"
  shows "after t (init_succeeded name v t)"
proof -
  let ?t1 = "on_module name (\<lambda>m. m\<lparr>data := (if truthy (data m) then data m else v)\<rparr>) t"
  have a: "after t ?t1" using assms by (simp add: after_def)
  show ?thesis
  proof (cases "moduleInited name ?t1")
    case (Inl e)
    then have "init_succeeded name v t = emit (Console_error e) ?t1"
      by (simp add: init_succeeded_def)
    then show ?thesis using assms by (simp add: after_def)
  next
    case (Inr t2)
    then have "after ?t1 t2" using assms by (intro after_moduleInited) simp_all
    moreover have "init_succeeded name v t = t2" using Inr by (simp add: init_succeeded_def)
    ultimately show ?thesis using a by (auto intro: after_trans)
  qed
qed

lemma after_init_failed:
  assumes "state t \<noteq> off" "state t \<noteq> error"
  shows "after t (init_failed name err t)"
proof -
  let ?t3 = "on_module name (\<lambda>m. m\<lparr>error_m := Some err\<rparr>)
               (changeModuleState name error (t\<lparr>modulesToUnload := modulesToUnload t - 1\<rparr>))"
  have a: "after t ?t3" using assms by (simp add: after_def)
  have "after ?t3 (error_method err (Some name) ?t3)"
    using assms by (intro after_error_method) simp_all
  with a show ?thesis unfolding init_failed_def Let_def by (rule after_trans)
qed

lemma after_deinit_countdown:
  assumes "state t \<noteq> off" "state t \<noteq> error"
  shows "after t (deinit_countdown name t)"
proof -
  let ?t1 = "t\<lparr>modulesToUnload := modulesToUnload t - 1\<rparr>"
  have a: "after t ?t1" using assms by (simp add: after_def)
  have "after ?t1 (dependencies_loop ns ?t1)" for ns
    using assms by (intro after_scheduling scheduling_dependencies_loop) simp_all
  moreover have
    "after ?t1 (emit Emit_stopped (changeState down (resolve (deinitDefer ?t1) ?t1)))"
    by (auto simp: after_def split: option.splits)
  ultimately have "after ?t1 (deinit_countdown name t)"
    by (simp add: deinit_countdown_def Let_def)
  with a show ?thesis by (rule after_trans)
qed

lemma after_deinit_succeeded:
  assumes "state t \<noteq> off" "state t \<noteq> error"
  shows "after t (deinit_succeeded name t)"
proof -
  have "after t (changeModuleState name down t)" using assms by (simp add: after_def)
  moreover have "after (changeModuleState name down t) (deinit_succeeded name t)"
    unfolding deinit_succeeded_def using assms by (intro after_deinit_countdown) simp_all
  ultimately show ?thesis by (rule after_trans)
qed

lemma after_deinit_failed:
  assumes "state t \<noteq> off" "state t \<noteq> error"
  shows "after t (deinit_failed name err t)"
proof -
  let ?t2 = "on_module name (\<lambda>m. m\<lparr>error_m := Some err\<rparr>) (changeModuleState name error t)"
  let ?t3 = "error_method err (Some name) ?t2"
  have a: "after t ?t2" using assms by (simp add: after_def)
  have b: "after ?t2 ?t3" using assms by (intro after_error_method) simp_all
  then have "state ?t3 \<noteq> off" "state ?t3 \<noteq> error" by (simp_all add: after_def)
  then have "after ?t3 (deinit_countdown name ?t3)" by (rule after_deinit_countdown)
  with a b show ?thesis unfolding deinit_failed_def Let_def by (blast intro: after_trans)
qed

lemma after_init_callback:
  assumes "state t \<noteq> off" "state t \<noteq> error"
  shows "after t (init_callback t)"
  unfolding init_callback_def using assms
  by (intro after_scheduling scheduling_init_loop)

lemma after_resume:
  assumes "resume k t = Some u" "state t \<noteq> off" "state t \<noteq> error"
  shows "after t u"
  using assms by (auto simp: resume_def after_def split: if_splits)

lemma after_step:
  assumes "step a t = Some t'" "state t \<noteq> off" "state t \<noteq> error"
  shows "after t t'"
proof (cases a)
  case Call_init
  then show ?thesis using assms by (simp add: after_init after_refl)
next
  case Call_deinit
  then show ?thesis using assms by (auto simp: after_deinit)
next
  case Run_microtask
  then obtain u where u: "resume Microtask t = Some u" "t' = init_callback u"
    using assms(1) by auto
  from u(1) have "after t u" using assms(2,3) by (rule after_resume)
  moreover from this have "after u t'"
    unfolding u(2) by (intro after_init_callback) (simp_all add: after_def)
  ultimately show ?thesis by (rule after_trans)
next
  case (Init_resolves n v)
  then obtain u where u: "resume (Init_op n) t = Some u" "t' = init_succeeded n v u"
    using assms(1) by auto
  from u(1) have "after t u" using assms(2,3) by (rule after_resume)
  moreover from this have "after u t'"
    unfolding u(2) by (intro after_init_succeeded) (simp_all add: after_def)
  ultimately show ?thesis by (rule after_trans)
next
  case (Init_rejects n e)
  then obtain u where u: "resume (Init_op n) t = Some u" "t' = init_failed n e u"
    using assms(1) by auto
  from u(1) have "after t u" using assms(2,3) by (rule after_resume)
  moreover from this have "after u t'"
    unfolding u(2) by (intro after_init_failed) (simp_all add: after_def)
  ultimately show ?thesis by (rule after_trans)
next
  case (Deinit_resolves n)
  then obtain u where u: "resume (Deinit_op n) t = Some u" "t' = deinit_succeeded n u"
    using assms(1) by auto
  from u(1) have "after t u" using assms(2,3) by (rule after_resume)
  moreover from this have "after u t'"
    unfolding u(2) by (intro after_deinit_succeeded) (simp_all add: after_def)
  ultimately show ?thesis by (rule after_trans)
next
  case (Deinit_rejects n e)
  then obtain u where u: "resume (Deinit_op n) t = Some u" "t' = deinit_failed n e u"
    using assms(1) by auto
  from u(1) have "after t u" using assms(2,3) by (rule after_resume)
  moreover from this have "after u t'"
    unfolding u(2) by (intro after_deinit_failed) (simp_all add: after_def)
  ultimately show ?thesis by (rule after_trans)
next
  case Add_error_listener
  then show ?thesis using assms by (auto simp: after_def)
next
  case Remove_error_listener
  then show ?thesis using assms by (auto simp: after_def)
qed

lemma fresh_constructor: "constructor input = Inr t0 \<Longrightarrow> fresh t0"
  by (auto simp: constructor_def fresh_def split: sum.splits)

lemma begun_after: "begun t \<Longrightarrow> after t t' \<Longrightarrow> begun t'"
  by (auto simp: begun_def after_def intro: stepwise_append)

lemma fresh_or_begun_step:
  assumes "fresh t \<or> shut t \<or> begun t" and "step a t = Some t'"
  shows "fresh t' \<or> shut t' \<or> begun t'"
proof -
  consider "fresh t" | "shut t" | "begun t" using assms(1) by blast
  then show ?thesis
  proof cases
    case 1
    then show ?thesis
      using assms(2)
      by (cases a)
         (auto simp: fresh_def begun_def shut_def init_def deinit_def Let_def resume_def)
  next
    case 2
    then have "shut t'"
      using assms(2) by (cases a) (auto simp: shut_def init_def deinit_def resume_def)
    then show ?thesis by simp
  next
    case 3
    then have "after t t'" using assms(2) by (intro after_step) (simp_all add: begun_def)
    with 3 show ?thesis by (simp add: begun_after)
  qed
qed

lemma fresh_or_begun:
  assumes "constructor input = Inr t0" and "run acts t0 = Some t"
  shows "fresh t \<or> shut t \<or> begun t"
proof (rule run_invariant[where P = "\<lambda>t. fresh t \<or> shut t \<or> begun t", OF assms(2)])
  show "fresh t0 \<or> shut t0 \<or> begun t0" using fresh_constructor[OF assms(1)] by simp
qed (rule fresh_or_begun_step)

lemma run_after:
  assumes "run acts t = Some t'" and "state t \<noteq> off" and "state t \<noteq> error"
  shows "after t t'"
  using assms
proof (induction acts arbitrary: t)
  case Nil
  then show ?case by (simp add: after_refl)
next
  case (Cons a acts)
  then obtain u where u: "step a t = Some u" "run acts u = Some t'"
    by (auto split: option.splits)
  have tu: "after t u" using u(1) Cons.prems(2,3) by (rule after_step)
  then have "after u t'" using u(2) by (intro Cons.IH) (simp_all add: after_def)
  with tu show ?case by (rule after_trans)
qed

lemma stepwise_states:
  "stepwise tr \<Longrightarrow> Emit_state s \<in> set tr \<Longrightarrow> s \<noteq> off \<and> s \<noteq> error"
  by (induction tr rule: stepwise.induct) auto

lemma stepwise_up:
  "stepwise tr \<Longrightarrow> i < length tr \<Longrightarrow> tr ! i = Emit_state up \<Longrightarrow>
     Suc i < length tr \<and> tr ! Suc i = Emit_started"
proof (induction tr arbitrary: i rule: stepwise.induct)
  case (2 s r)
  then show ?case by (cases i; cases r) auto
qed (auto simp: nth_Cons split: nat.splits)

lemma stepwise_down:
  "stepwise tr \<Longrightarrow> i < length tr \<Longrightarrow> tr ! i = Emit_state down \<Longrightarrow>
     Suc i < length tr \<and> tr ! Suc i = Emit_stopped"
proof (induction tr arbitrary: i rule: stepwise.induct)
  case (2 s r)
  then show ?case by (cases i; cases r) auto
qed (auto simp: nth_Cons split: nat.splits)

text \<open>
  C10. The state of the tree is never \<open>error\<close>: after any sequence of calls of \<^verbatim>\<open>init()\<close> and
  \<^verbatim>\<open>deinit()\<close> and of module outcomes, the tree is not in state \<open>error\<close>, and every state it
  has been assigned (each assignment emits a \<^verbatim>\<open>'state'\<close> notification) is \<open>initializing\<close>,
  \<open>up\<close>, \<open>deinitializing\<close> or \<open>down\<close>. So the \<open>error\<close> column of the state table and the
  \<open>error\<close> branch of \<^verbatim>\<open>deinit()\<close> are never taken.
\<close>

theorem tree_state_never_error:
  assumes "constructor input = Inr t0" and "run acts t0 = Some t"
  shows "state t \<noteq> error \<and>
         (\<forall>s. Emit_state s \<in> set (trace t) \<longrightarrow>
            s = initializing \<or> s = up \<or> s = deinitializing \<or> s = down)"
proof -
  have fb: "fresh t \<or> shut t \<or> begun t" using assms by (rule fresh_or_begun)
  then have 1: "state t \<noteq> error" by (auto simp: fresh_def begun_def shut_def)
  have 2: "s = initializing \<or> s = up \<or> s = deinitializing \<or> s = down"
    if "Emit_state s \<in> set (trace t)" for s
  proof -
    have "s \<noteq> off \<and> s \<noteq> error"
      using fb that by (auto simp: fresh_def begun_def shut_def dest: stepwise_states)
    then show ?thesis by (cases s) simp_all
  qed
  show ?thesis using 1 2 by blast
qed

theorem tree_state_never_error_witness:
  "\<exists>t0 t. constructor diamond = Inr t0 \<and> run diamond_rollback t0 = Some t \<and>
     state t = down \<and> state t \<noteq> error \<and>
     (\<forall>s. Emit_state s \<in> set (trace t) \<longrightarrow>
        s = initializing \<or> s = up \<or> s = deinitializing \<or> s = down)"
proof -
  have "\<not> isl (constructor diamond)" by code_simp
  then obtain t0 where c: "constructor diamond = Inr t0"
    by (cases "constructor diamond") auto
  have "run diamond_rollback (projr (constructor diamond)) \<noteq> None" by code_simp
  then obtain t where r: "run diamond_rollback t0 = Some t" using c by auto
  have "map_option state (run diamond_rollback (projr (constructor diamond))) = Some down"
    by code_simp
  then have "state t = down" using c r by simp
  with tree_state_never_error[OF c r] c r show ?thesis by blast
qed

lemma init_from_off:
  assumes "fresh t"
  shows "fst (init t) = Inr (Promise_of 0)" "state (snd (init t)) = initializing"
    "initDefer (snd (init t)) = Some 0" "deferreds (snd (init t)) = 1"
    "trace (snd (init t)) = [Emit_state initializing]"
  using assms by (simp_all add: fresh_def init_def Let_def promise_of_def)

text \<open>
  C3. \<^verbatim>\<open>init()\<close> follows the state table. Called on a tree that is \<open>off\<close>, it moves the tree to
  \<open>initializing\<close> and returns the promise of a deferred that it has just created (its rank is
  the number of deferreds that existed before) and that is not resolved. Whatever happens
  next, a call made while the tree is \<open>initializing\<close> returns the same promise and changes
  nothing. On a tree that is \<open>up\<close> the call returns \<^verbatim>\<open>Promise.resolve()\<close>, and on a tree that is
  \<open>deinitializing\<close>, \<open>down\<close> or \<open>error\<close> it throws.
\<close>

theorem init_state_table:
  assumes "constructor input = Inr t0" and "run acts1 t0 = Some t1" and "state t1 = off"
    and "init t1 = (r, t2)" and "run acts2 t2 = Some t3"
  shows "r = Inr (Promise_of (deferreds t1)) \<and> deferreds t2 = deferreds t1 + 1 \<and>
         Resolve (deferreds t1) \<notin> set (trace t2) \<and> state t2 = initializing \<and>
         (state t3 = initializing \<longrightarrow> init t3 = (r, t3)) \<and>
         (state u = up \<longrightarrow> init u = (Inr Promise_resolved, u)) \<and>
         (state u = deinitializing \<or> state u = down \<or> state u = error \<longrightarrow>
            init u = (Inl Cant_init_tree, u))"
proof -
  have f: "fresh t1"
    using fresh_or_begun[OF assms(1,2)] assms(3) by (auto simp: begun_def shut_def)
  have t2: "t2 = snd (init t1)" and r: "r = fst (init t1)" using assms(4) by simp_all
  have d0: "deferreds t1 = 0" using f by (simp add: fresh_def)
  have a: "after t2 t3"
    using assms(5) by (rule run_after) (simp_all add: t2 init_from_off[OF f])
  then have "initDefer t3 = Some 0" by (simp add: after_def t2 init_from_off[OF f])
  have r0: "r = Inr (Promise_of 0)" using init_from_off(1)[OF f] r by simp
  have same: "init t3 = (r, t3)" if "state t3 = initializing"
    using that \<open>initDefer t3 = Some 0\<close> by (simp add: init_def promise_of_def r0)
  have "init u = (Inr Promise_resolved, u)" if "state u = up"
    using that by (simp add: init_def)
  moreover have "init u = (Inl Cant_init_tree, u)"
    if "state u = deinitializing \<or> state u = down \<or> state u = error"
    using that by (auto simp: init_def)
  ultimately show ?thesis
    using same d0 r0 by (simp add: t2 init_from_off[OF f])
qed

theorem init_state_table_witness:
  "\<exists>t0 t2 t3 u v.
     constructor diamond = Inr t0 \<and> run [] t0 = Some t0 \<and> state t0 = off \<and>
     init t0 = (Inr (Promise_of 0), t2) \<and> state t2 = initializing \<and>
     run [Run_microtask, Call_init] t2 = Some t3 \<and> state t3 = initializing \<and>
     init t3 = (Inr (Promise_of 0), t3) \<and>
     run [Run_microtask, Init_resolves ''a'' (JNum 1), Init_resolves ''b'' (JNum 2),
          Init_resolves ''c'' (JNum 3), Init_resolves ''d'' (JNum 4)] t2 = Some u \<and>
     state u = up \<and> init u = (Inr Promise_resolved, u) \<and>
     run diamond_rollback t0 = Some v \<and> state v = down \<and> init v = (Inl Cant_init_tree, v)"
proof -
  let ?t0 = "projr (constructor diamond)"
  let ?t2 = "snd (init ?t0)"
  let ?as = "[Run_microtask, Call_init]"
  let ?bs = "[Run_microtask, Init_resolves ''a'' (JNum 1), Init_resolves ''b'' (JNum 2),
          Init_resolves ''c'' (JNum 3), Init_resolves ''d'' (JNum 4)]"
  have "\<not> isl (constructor diamond)" by code_simp
  then have c: "constructor diamond = Inr ?t0" by simp
  have off: "state ?t0 = off" by code_simp
  have i: "init ?t0 = (fst (init ?t0), ?t2)" by simp
  have "run ?as ?t2 \<noteq> None" by code_simp
  then obtain t3 where t3: "run ?as ?t2 = Some t3" by auto
  have "map_option state (run ?as ?t2) = Some initializing" by code_simp
  then have s3: "state t3 = initializing" using t3 by simp
  have "run ?bs ?t2 \<noteq> None" by code_simp
  then obtain u where u: "run ?bs ?t2 = Some u" by auto
  have "map_option state (run ?bs ?t2) = Some up" by code_simp
  then have su: "state u = up" using u by simp
  have "run diamond_rollback ?t0 \<noteq> None" by code_simp
  then obtain v where v: "run diamond_rollback ?t0 = Some v" by auto
  have "map_option state (run diamond_rollback ?t0) = Some down" by code_simp
  then have sv: "state v = down" using v by simp
  have d0: "deferreds ?t0 = 0" by code_simp
  have r0: "run [] ?t0 = Some ?t0" by simp
  have fi: "fst (init ?t0) = Inr (Promise_of 0)" by code_simp
  have s2: "state ?t2 = initializing" by code_simp
  note A = init_state_table[OF c r0 off i t3, where u = u]
  note B = init_state_table[OF c r0 off i t3, where u = v]
  have i3: "init t3 = (Inr (Promise_of 0), t3)" using A s3 fi by simp
  have iu: "init u = (Inr Promise_resolved, u)" using A su by simp
  have iv: "init v = (Inl Cant_init_tree, v)" using B sv by simp
  have i0: "init ?t0 = (Inr (Promise_of 0), ?t2)" using fi by (simp add: prod_eq_iff)
  show ?thesis
    using c r0 off i0 s2 t3 s3 i3 u su iu v sv iv by blast
qed

lemma run_from_Some:
  "run_from input acts = Some t \<longleftrightarrow> (\<exists>t0. constructor input = Inr t0 \<and> run acts t0 = Some t)"
  by (auto simp: run_from_def split: sum.splits)

section \<open>An init that completes while the tree is deinitializing\<close>

lemma pending_deinit_loop: "set (pending t) \<subseteq> set (pending (deinit_loop ns t))"
  by (rule deinit_loop_preserves) auto

lemma pending_deinit: "set (pending t) \<subseteq> set (pending (snd (deinit t)))"
proof -
  have "set (pending t) \<subseteq> set (pending (deinit_loop ns
          (changeState deinitializing t\<lparr>deinitDefer := Some (deferreds t),
             deferreds := deferreds t + 1\<rparr>)))" for ns
    using pending_deinit_loop[of "changeState deinitializing t\<lparr>deinitDefer := Some (deferreds t),
             deferreds := deferreds t + 1\<rparr>" ns] by simp
  then show ?thesis
    by (cases "state t") (simp_all add: deinit_def Let_def)
qed

lemma state_m_upd_key:
  assumes "name \<in> set (map fst ms)"
  shows "map_option state_m (map_of (upd name (\<lambda>m. m\<lparr>state_m := s\<rparr>) ms) name) = Some s"
proof -
  obtain m where "map_of ms name = Some m"
    using assms by (cases "map_of ms name") (auto simp: map_of_eq_None_iff)
  then show ?thesis by (simp add: map_of_upd)
qed

section \<open>Unknown dependency names\<close>

text \<open>
  C8. A dependency name that is not a module but is a property that every object inherits
  (here \<^verbatim>\<open>toString\<close>) is not reported as a broken dependency: the lookup finds the inherited
  property, and the constructor fails with a \<^verbatim>\<open>TypeError\<close> instead.
\<close>

theorem inherited_name_is_not_reported_broken:
  "constructor inherited_dependency = Inl Type_error"
  by code_simp

section \<open>A rollback that never ends\<close>

lemma stuck_step:
  assumes "step a t = Some t'" and "state t = deinitializing" and "pending t = []"
  shows "state t' = deinitializing \<and> pending t' = []"
  using assms by (cases a) (auto simp: init_def deinit_def resume_def)

lemma stuck:
  assumes "run acts t = Some t'" and "state t = deinitializing" and "pending t = []"
  shows "state t' = deinitializing"
  using assms
proof (induction acts arbitrary: t)
  case Nil
  then show ?case by simp
next
  case (Cons a acts)
  then obtain u where u: "step a t = Some u" "run acts u = Some t'"
    by (auto split: option.splits)
  from stuck_step[OF u(1) Cons.prems(2,3)] have "state u = deinitializing" "pending u = []"
    by simp_all
  with u(2) show ?case by (rule Cons.IH)
qed

text \<open>
  C2. One needed module whose init operation fails: the module is in state \<open>error\<close> and its
  error is in the error list, but no module is up, nothing is in flight, and the tree stays
  \<open>deinitializing\<close> whatever is called afterwards: it never reaches \<open>down\<close>.
\<close>

theorem failed_init_leaves_tree_deinitializing:
  "\<exists>t. run_from lonely lonely_failure = Some t \<and> state t = deinitializing \<and>
       pending t = [] \<and> errors t = [Thrown (JStr ''boom'')] \<and>
       map_option state_m (map_of (modules t) ''a'') = Some error \<and>
       \<not> (\<exists>acts t'. run acts t = Some t' \<and> state t' = down)"
proof -
  let ?r = "run_from lonely lonely_failure"
  have "?r \<noteq> None" by code_simp
  then obtain t where t: "?r = Some t" by auto
  have "map_option state ?r = Some deinitializing" by code_simp
  then have s: "state t = deinitializing" using t by simp
  have "map_option pending ?r = Some []" by code_simp
  then have p: "pending t = []" using t by simp
  have "map_option errors ?r = Some [Thrown (JStr ''boom'')]" by code_simp
  then have e: "errors t = [Thrown (JStr ''boom'')]" using t by simp
  have "map_option (\<lambda>t. map_option state_m (map_of (modules t) ''a'')) ?r = Some (Some error)"
    by code_simp
  then have m: "map_option state_m (map_of (modules t) ''a'') = Some error" using t by simp
  have "\<not> (\<exists>acts t'. run acts t = Some t' \<and> state t' = down)"
    using stuck[OF _ s p] by auto
  with t s p e m show ?thesis by blast
qed


text \<open>
  In the race of \<open>chain_race\<close>, the deinit operation of \<open>A\<close> is invoked although its dependant
  \<open>D\<close>, which is up, has not had its deinit operation invoked.
\<close>

lemma rollback_out_of_order:
  "map_option (\<lambda>t. (drop 14 (trace t), map_option state_m (map_of (modules t) ''D'')))
     (run_from chain chain_race) =
   Some ([Emit_module_state ''F'' error, Console_error (Thrown (JObj 0)),
          Emit_state deinitializing, Emit_module_state ''E'' deinitializing,
          Invoke_deinit ''E'', Emit_module_state ''B'' deinitializing, Invoke_deinit ''B'',
          Emit_module_state ''B'' down, Emit_module_state ''A'' deinitializing,
          Invoke_deinit ''A''], Some up)"
  by code_simp

section \<open>Module states follow their notifications\<close>

lemma set_upd: "set (upd n f ms) = (\<lambda>(k, m). if k = n then (k, f m) else (k, m)) ` set ms"
  by (auto simp: upd_def)

lemma notified_state_snoc [simp]:
  "notified_state n (tr @ [e]) = module_state_after n (notified_state n tr) e"
  by (simp add: notified_state_def)

lemma tracked_emit:
  "tracked t \<Longrightarrow> (\<And>n s. e \<noteq> Emit_module_state n s) \<Longrightarrow> tracked (emit e t)"
  by (cases e) (auto simp: tracked_def)

lemma tracked_on_module:
  "tracked t \<Longrightarrow> (\<And>m. state_m (f m) = state_m m) \<Longrightarrow> tracked (on_module n f t)"
  by (auto simp: tracked_def set_upd split: if_splits)

lemma tracked_changeModuleState: "tracked t \<Longrightarrow> tracked (changeModuleState n s t)"
  by (auto simp: tracked_def set_upd split: if_splits)

lemma tracked_changeState: "tracked t \<Longrightarrow> tracked (changeState s t)"
  by (auto simp: tracked_def)

lemma tracked_resolve: "tracked t \<Longrightarrow> tracked (resolve d t)"
  by (auto simp: tracked_def split: option.splits)

lemma tracked_fields [simp]:
  "tracked (t\<lparr>modulesToUnload := a\<rparr>) = tracked t"
  "tracked (t\<lparr>modulesToLoad := a\<rparr>) = tracked t"
  "tracked (t\<lparr>errors := b\<rparr>) = tracked t"
  "tracked (t\<lparr>pending := c\<rparr>) = tracked t"
  "tracked (t\<lparr>initDefer := d\<rparr>) = tracked t"
  "tracked (t\<lparr>deinitDefer := d\<rparr>) = tracked t"
  "tracked (t\<lparr>deferreds := k\<rparr>) = tracked t"
  "tracked (t\<lparr>error_listeners := k\<rparr>) = tracked t"
  by (simp_all add: tracked_def)

lemma tracked_initModule: "tracked t \<Longrightarrow> tracked (initModule n t)"
  unfolding initModule_def Let_def
  by (simp add: tracked_emit tracked_changeModuleState)

lemma tracked_deinitModule: "tracked t \<Longrightarrow> tracked (deinitModule n t)"
  unfolding deinitModule_def Let_def
  by (simp add: tracked_emit tracked_changeModuleState)

lemma tracked_deinit_loop: "tracked t \<Longrightarrow> tracked (deinit_loop ns t)"
  by (rule deinit_loop_preserves[where P = tracked]) (simp_all add: tracked_deinitModule)

lemma tracked_count_up_loop: "tracked t \<Longrightarrow> tracked (count_up_loop ns t)"
  by (rule count_up_loop_preserves[where P = tracked]) (simp_all add: tracked_on_module)

lemma tracked_dependants_loop: "tracked t \<Longrightarrow> tracked (dependants_loop ns t)"
  by (rule dependants_loop_preserves[where P = tracked])
     (simp_all add: tracked_on_module tracked_initModule)

lemma tracked_dependencies_loop: "tracked t \<Longrightarrow> tracked (dependencies_loop ns t)"
  by (rule dependencies_loop_preserves[where P = tracked])
     (simp_all add: tracked_on_module tracked_deinitModule)

lemma tracked_init_loop: "tracked t \<Longrightarrow> tracked (init_loop ns t)"
  by (rule init_loop_preserves[where P = tracked]) (simp_all add: tracked_initModule)

lemma tracked_deinit: "tracked t \<Longrightarrow> tracked (snd (deinit t))"
  by (cases "state t")
     (simp_all add: deinit_def Let_def tracked_changeState tracked_deinit_loop)

lemma tracked_push_and_deinit:
  assumes "tracked t"
  shows "tracked (push_and_deinit err t)"
proof -
  have "tracked (snd (deinit (t\<lparr>errors := errors t @ [err]\<rparr>)))"
    using assms by (intro tracked_deinit) simp
  then show ?thesis
    by (cases rule: push_and_deinit_cases[of err t]) (simp_all add: tracked_emit)
qed

lemma tracked_error_method:
  assumes "tracked t"
  shows "tracked (error_method err name t)"
  using assms by (simp add: error_method_def tracked_push_and_deinit tracked_emit)

lemma tracked_moduleInited:
  assumes "tracked t" and "moduleInited name t = Inr t'"
  shows "tracked t'"
proof (cases "state t")
  case initializing
  let ?t1 = "changeModuleState name up t"
  let ?t2 = "count_up_loop (dependencies_of ?t1 name) ?t1"
  let ?t3 = "?t2\<lparr>modulesToLoad := modulesToLoad ?t2 - 1\<rparr>"
  have 3: "tracked ?t3"
    using assms(1) by (simp add: tracked_count_up_loop tracked_changeModuleState)
  show ?thesis
  proof (cases "modulesToLoad ?t3 = 0")
    case True
    then have "t' = emit Emit_started (changeState up (resolve (initDefer ?t3) ?t3))"
      using assms(2) initializing by (simp add: moduleInited_def Let_def)
    then show ?thesis
      using 3 by (simp add: tracked_emit tracked_changeState tracked_resolve)
  next
    case False
    then have "t' = dependants_loop (dependants_of ?t3 name) ?t3"
      using assms(2) initializing by (simp add: moduleInited_def Let_def)
    then show ?thesis using 3 by (simp add: tracked_dependants_loop)
  qed
next
  case deinitializing
  then have "t' = deinitModule name t" using assms(2) by (simp add: moduleInited_def)
  then show ?thesis using assms(1) by (simp add: tracked_deinitModule)
qed (use assms in \<open>simp_all add: moduleInited_def\<close>)

lemma tracked_init_succeeded:
  assumes "tracked t"
  shows "tracked (init_succeeded name v t)"
proof -
  let ?t1 = "on_module name (\<lambda>m. m\<lparr>data := (if truthy (data m) then data m else v)\<rparr>) t"
  have 1: "tracked ?t1" using assms by (rule tracked_on_module) simp
  show ?thesis
  proof (cases "moduleInited name ?t1")
    case (Inl e)
    then show ?thesis using 1 by (simp add: init_succeeded_def tracked_emit)
  next
    case (Inr t2)
    then show ?thesis
      using tracked_moduleInited[OF 1 Inr] by (simp add: init_succeeded_def)
  qed
qed

lemma tracked_init_failed: "tracked t \<Longrightarrow> tracked (init_failed name err t)"
  unfolding init_failed_def Let_def
  by (intro tracked_error_method tracked_on_module tracked_changeModuleState) simp_all

lemma tracked_deinit_countdown: "tracked t \<Longrightarrow> tracked (deinit_countdown name t)"
  unfolding deinit_countdown_def Let_def
  by (simp add: tracked_emit tracked_changeState tracked_resolve tracked_dependencies_loop)

lemma tracked_deinit_succeeded: "tracked t \<Longrightarrow> tracked (deinit_succeeded name t)"
  unfolding deinit_succeeded_def
  by (intro tracked_deinit_countdown tracked_changeModuleState)

lemma tracked_deinit_failed: "tracked t \<Longrightarrow> tracked (deinit_failed name err t)"
  unfolding deinit_failed_def Let_def
  by (intro tracked_deinit_countdown tracked_error_method tracked_on_module
        tracked_changeModuleState) simp_all

lemma tracked_init_callback: "tracked t \<Longrightarrow> tracked (init_callback t)"
  unfolding init_callback_def by (rule tracked_init_loop)

lemma tracked_init: "tracked t \<Longrightarrow> tracked (snd (init t))"
  by (cases "state t") (simp_all add: init_def Let_def tracked_changeState)

lemma tracked_resume: "resume k t = Some u \<Longrightarrow> tracked t \<Longrightarrow> tracked u"
  by (auto simp: resume_def split: if_splits)

lemma tracked_step:
  assumes "tracked t" and "step a t = Some t'"
  shows "tracked t'"
  using assms
  by (cases a)
     (auto simp: tracked_init tracked_deinit tracked_init_callback tracked_init_succeeded
        tracked_init_failed tracked_deinit_succeeded tracked_deinit_failed
        dest: tracked_resume)

section \<open>What the constructor leaves of a description\<close>

lemma core_upd:
  "(\<And>m. core (f m) = core m) \<Longrightarrow>
     map (\<lambda>(n, m). (n, core m)) (upd k f ms) = map (\<lambda>(n, m). (n, core m)) ms"
  by (induction ms) (auto simp: upd_def)

lemma core_upd_dependants:
  "map (\<lambda>(n, m). (n, core m)) (upd k (\<lambda>m. m\<lparr>dependants := g m\<rparr>) ms) =
     map (\<lambda>(n, m). (n, core m)) ms"
  by (rule core_upd) (simp add: core_def)

lemma core_upd_needed:
  "map (\<lambda>(n, m). (n, core m)) (upd k (\<lambda>m. m\<lparr>needed := b\<rparr>) ms) =
     map (\<lambda>(n, m). (n, core m)) ms"
  by (rule core_upd) (simp add: core_def)

lemma core_add_dependants:
  "add_dependants x ds ms = Inr ms' \<Longrightarrow>
     map (\<lambda>(n, m). (n, core m)) ms' = map (\<lambda>(n, m). (n, core m)) ms"
proof (induction ds arbitrary: ms)
  case Nil
  then show ?case by simp
next
  case (Cons d ds)
  then obtain y where "get_module ms d = Own y"
    and r: "add_dependants x ds (upd d (\<lambda>m. m\<lparr>dependants := dependants m @ [x]\<rparr>) ms) = Inr ms'"
    by (auto split: lookup.splits)
  from Cons.IH[OF r] show ?case by (simp add: core_upd_dependants)
qed

lemma core_link:
  "link ns ms = Inr ms' \<Longrightarrow>
     map (\<lambda>(n, m). (n, core m)) ms' = map (\<lambda>(n, m). (n, core m)) ms"
proof (induction ns arbitrary: ms)
  case Nil
  then show ?case by simp
next
  case (Cons n ns)
  then obtain m ms1 where "map_of ms n = Some m"
    and a: "add_dependants n (dependencies m) ms = Inr ms1" and l: "link ns ms1 = Inr ms'"
    by (auto split: option.splits sum.splits)
  from Cons.IH[OF l] core_add_dependants[OF a] show ?case by simp
qed

lemma core_fillDeps:
  "fillDeps ds ms = Inr ms' \<Longrightarrow>
     map (\<lambda>(n, m). (n, core m)) ms' = map (\<lambda>(n, m). (n, core m)) ms"
proof (induction ds ms rule: fillDeps.induct)
  case (1 ms)
  then show ?case by simp
next
  case (2 d rest ms)
  then obtain y where y: "map_of ms d = Some y" by (auto split: option.splits)
  show ?case
  proof (cases "needed y")
    case True
    then show ?thesis using 2 y by simp
  next
    case False
    then have "fillDeps (dependencies y @ rest) (upd d (\<lambda>m. m\<lparr>needed := True\<rparr>) ms) = Inr ms'"
      using "2.prems" y by simp
    from "2.IH"(2)[OF y False this] show ?thesis by (simp add: core_upd_needed)
  qed
qed

lemma core_fillNeeded:
  "fillNeeded n ms = Inr ms' \<Longrightarrow>
     map (\<lambda>(n, m). (n, core m)) ms' = map (\<lambda>(n, m). (n, core m)) ms"
  by (auto simp: fillNeeded_def core_upd_needed split: option.splits dest!: core_fillDeps)

lemma core_fill_loop:
  "fill_loop ns ms = Inr ms' \<Longrightarrow>
     map (\<lambda>(n, m). (n, core m)) ms' = map (\<lambda>(n, m). (n, core m)) ms"
proof (induction ns arbitrary: ms)
  case Nil
  then show ?case by simp
next
  case (Cons n ns)
  then obtain m where m: "map_of ms n = Some m" by (auto split: option.splits)
  show ?case
  proof (cases "needed m")
    case True
    then obtain ms1 where f: "fillNeeded n ms = Inr ms1" and l: "fill_loop ns ms1 = Inr ms'"
      using Cons.prems m by (auto split: sum.splits)
    from Cons.IH[OF l] core_fillNeeded[OF f] show ?thesis by simp
  next
    case False
    then show ?thesis using Cons m by simp
  qed
qed

lemma core_build:
  assumes "build input = Inr ms"
  shows "map (\<lambda>(n, m). (n, core m)) ms = map (\<lambda>(n, d). (n, core (new_module d))) input"
proof -
  let ?ms0 = "map (\<lambda>(name, d). (name, new_module d)) input"
  obtain ms1 where l: "link (map fst ?ms0) ?ms0 = Inr ms1"
    and f: "fill_loop (map fst ms1) ms1 = Inr ms"
    using assms by (auto simp: build_def Let_def split: sum.splits)
  have "map (\<lambda>(n, m). (n, core m)) ?ms0 = map (\<lambda>(n, d). (n, core (new_module d))) input"
    by (induction input) auto
  with core_link[OF l] core_fill_loop[OF f] show ?thesis by simp
qed

lemma built_entry:
  assumes "build input = Inr ms" and "(n, m) \<in> set ms"
  shows "\<exists>d. (n, d) \<in> set input \<and> core m = core (new_module d)"
proof -
  have "(n, core m) \<in> set (map (\<lambda>(n, m). (n, core m)) ms)"
    using assms(2) by force
  then have "(n, core m) \<in> set (map (\<lambda>(n, d). (n, core (new_module d))) input)"
    by (simp only: core_build[OF assms(1)])
  then show ?thesis by auto
qed

lemma built_keys: "build input = Inr ms \<Longrightarrow> map fst ms = map fst input"
proof -
  assume b: "build input = Inr ms"
  have "map fst ms = map fst (map (\<lambda>(n, m). (n, core m)) ms)" by (induction ms) auto
  also have "\<dots> = map fst (map (\<lambda>(n, d). (n, core (new_module d))) input)"
    by (simp only: core_build[OF b])
  also have "\<dots> = map fst input" by (induction input) auto
  finally show ?thesis .
qed

lemma core_fields:
  "core m = core m' \<Longrightarrow>
     dependencies m = dependencies m' \<and> dependenciesToLoad m = dependenciesToLoad m' \<and>
     state_m m = state_m m' \<and> dependantsToUnload m = dependantsToUnload m' \<and>
     data m = data m' \<and> error_m m = error_m m'"
  by (cases m; cases m') (simp add: core_def)

lemma tracked_constructor: "constructor input = Inr t0 \<Longrightarrow> tracked t0"
proof -
  assume c: "constructor input = Inr t0"
  then obtain ms where b: "build input = Inr ms" and m: "modules t0 = ms" and t: "trace t0 = []"
    by (auto simp: constructor_def split: sum.splits)
  have "state_m x = off" if nx: "(n, x) \<in> set ms" for n x
  proof -
    obtain d where "core x = core (new_module d)" using built_entry[OF b nx] by blast
    from core_fields[OF this] show ?thesis by (simp add: new_module_def Let_def)
  qed
  then show ?thesis by (auto simp: tracked_def m t notified_state_def)
qed

lemma tracked_run:
  assumes "constructor input = Inr t0" and "run acts t0 = Some t"
  shows "tracked t"
  using assms(2) tracked_constructor[OF assms(1)]
  by (rule run_invariant) (rule tracked_step)

section \<open>Notifications\<close>

lemma tree_state_tracked:
  assumes "constructor input = Inr t0" and "run acts t0 = Some t"
  shows "state t = foldl tree_state_after off (trace t)"
proof -
  let ?P = "\<lambda>t. (fresh t \<or> shut t \<or> begun t) \<and> state t = foldl tree_state_after off (trace t)"
  have "?P t"
  proof (rule run_invariant[where P = ?P, OF assms(2)])
    show "?P t0" using fresh_constructor[OF assms(1)] by (simp add: fresh_def)
  next
    fix a u u' assume u: "?P u" and s: "step a u = Some u'"
    then have 1: "fresh u' \<or> shut u' \<or> begun u'" using fresh_or_begun_step by blast
    consider "fresh u" | "shut u" | "begun u" using u by blast
    then have "state u' = foldl tree_state_after off (trace u')"
    proof cases
      case 1
      then show ?thesis
        using s by (cases a) (auto simp: fresh_def init_def deinit_def Let_def resume_def)
    next
      case 2
      then show ?thesis
        using s by (cases a) (auto simp: shut_def init_def deinit_def resume_def)
    next
      case 3
      then have "after u u'" using s by (intro after_step) (simp_all add: begun_def)
      then obtain x where "trace u' = trace u @ x"
        "state u' = foldl tree_state_after (state u) x" by (auto simp: after_def)
      then show ?thesis using u by simp
    qed
    with 1 show "?P u'" by simp
  qed
  then show ?thesis by simp
qed

lemma deinit_off:
  "state t = off \<Longrightarrow>
     deinit t = (Inr Promise_resolved, changeState down t)"
  by (simp add: deinit_def)

text \<open>
  C6 (as amended). In the trace of any run:
  \<^item> every transition of the tree to \<open>up\<close> fires \<^verbatim>\<open>'started'\<close> (the event that follows a
    \<^verbatim>\<open>'state'\<close> notification of \<open>up\<close> is \<^verbatim>\<open>'started'\<close>);
  \<^item> every transition of the tree to \<open>down\<close> other than the first event of the trace fires
    \<^verbatim>\<open>'stopped'\<close>;
  \<^item> a tree that is \<open>off\<close> has emitted nothing, and \<^verbatim>\<open>deinit()\<close> moves it directly to \<open>down\<close>
    and fires the \<^verbatim>\<open>'state'\<close> notification only; a trace that begins with that notification
    never holds another event, so no \<^verbatim>\<open>'stopped'\<close> is ever fired for that transition;
  \<^item> the state of the tree is the one of its last \<^verbatim>\<open>'state'\<close> notification, and the state of
    every module is the one carried, with the module's name, by the last
    \<^verbatim>\<open>'module-state'\<close> notification for that name (\<open>off\<close> when there has been none): no state
    changes without its notification.
\<close>

theorem notifications_follow_states:
  assumes "constructor input = Inr t0" and "run acts t0 = Some t"
  shows "(\<forall>i. i < length (trace t) \<and> trace t ! i = Emit_state up \<longrightarrow>
            Suc i < length (trace t) \<and> trace t ! Suc i = Emit_started) \<and>
         (\<forall>i. 0 < i \<and> i < length (trace t) \<and> trace t ! i = Emit_state down \<longrightarrow>
            Suc i < length (trace t) \<and> trace t ! Suc i = Emit_stopped) \<and>
         (state t = off \<longrightarrow>
            trace t = [] \<and> fst (deinit t) = Inr Promise_resolved \<and>
            state (snd (deinit t)) = down \<and> trace (snd (deinit t)) = [Emit_state down]) \<and>
         (trace t \<noteq> [] \<and> trace t ! 0 = Emit_state down \<longrightarrow>
            trace t = [Emit_state down] \<and> state t = down) \<and>
         state t = foldl tree_state_after off (trace t) \<and>
         (\<forall>n m. (n, m) \<in> set (modules t) \<longrightarrow> state_m m = notified_state n (trace t))"
proof -
  have fb: "fresh t \<or> shut t \<or> begun t" using assms by (rule fresh_or_begun)
  have up: "Suc i < length (trace t) \<and> trace t ! Suc i = Emit_started"
    if "i < length (trace t)" "trace t ! i = Emit_state up" for i
  proof -
    from fb that have "stepwise (trace t)" by (auto simp: fresh_def begun_def shut_def)
    then show ?thesis using that by (rule stepwise_up)
  qed
  have dn: "Suc i < length (trace t) \<and> trace t ! Suc i = Emit_stopped"
    if "0 < i" "i < length (trace t)" "trace t ! i = Emit_state down" for i
  proof -
    from fb that have "stepwise (trace t)" by (auto simp: fresh_def begun_def shut_def)
    then show ?thesis using that(2,3) by (rule stepwise_down)
  qed
  have off: "trace t = [] \<and> fst (deinit t) = Inr Promise_resolved \<and>
            state (snd (deinit t)) = down \<and> trace (snd (deinit t)) = [Emit_state down]"
    if "state t = off"
  proof -
    have "trace t = []" using fb that by (auto simp: fresh_def begun_def shut_def)
    then show ?thesis using that by (simp add: deinit_off)
  qed
  have first: "trace t = [Emit_state down] \<and> state t = down"
    if "trace t \<noteq> []" "trace t ! 0 = Emit_state down"
    using fb that by (auto simp: fresh_def begun_def shut_def)
  have st: "state t = foldl tree_state_after off (trace t)"
    using assms by (rule tree_state_tracked)
  have "tracked t" using assms by (rule tracked_run)
  then have "\<forall>n m. (n, m) \<in> set (modules t) \<longrightarrow> state_m m = notified_state n (trace t)"
    by (auto simp: tracked_def)
  with up dn off first st show ?thesis by blast
qed

theorem notifications_follow_states_witness:
  "\<exists>t0 t. constructor diamond = Inr t0 \<and> run diamond_rollback t0 = Some t \<and>
     0 < (19::nat) \<and> 19 < length (trace t) \<and>
     trace t ! 19 = Emit_state down \<and> trace t ! 20 = Emit_stopped \<and>
     state t = foldl tree_state_after off (trace t) \<and>
     run [] t0 = Some t0 \<and> state t0 = off \<and> trace t0 = [] \<and>
     fst (deinit t0) = Inr Promise_resolved \<and> state (snd (deinit t0)) = down \<and>
     trace (snd (deinit t0)) = [Emit_state down]"
proof -
  have "\<not> isl (constructor diamond)" by code_simp
  then obtain t0 where c: "constructor diamond = Inr t0"
    by (cases "constructor diamond") auto
  have "run diamond_rollback (projr (constructor diamond)) \<noteq> None" by code_simp
  then obtain t where r: "run diamond_rollback t0 = Some t" using c by auto
  have "map_option (\<lambda>t. (length (trace t), trace t ! 19))
          (run diamond_rollback (projr (constructor diamond))) = Some (21, Emit_state down)"
    by code_simp
  then have d: "length (trace t) = 21" "trace t ! 19 = Emit_state down" using c r by auto
  have all: "\<forall>i. 0 < i \<and> i < length (trace t) \<and> trace t ! i = Emit_state down \<longrightarrow>
            Suc i < length (trace t) \<and> trace t ! Suc i = Emit_stopped"
    and s: "state t = foldl tree_state_after off (trace t)"
    using notifications_follow_states[OF c r] by blast+
  have h: "0 < (19::nat) \<and> 19 < length (trace t) \<and> trace t ! 19 = Emit_state down"
    using d by simp
  with all have "trace t ! Suc 19 = Emit_stopped" by blast
  moreover have "Suc 19 = 20" by simp
  ultimately have e: "trace t ! 20 = Emit_stopped" by simp
  have r0: "run [] t0 = Some t0" by simp
  have "state (projr (constructor diamond)) = off" by code_simp
  then have o: "state t0 = off" using c by simp
  have "state t0 = off \<longrightarrow>
            trace t0 = [] \<and> fst (deinit t0) = Inr Promise_resolved \<and>
            state (snd (deinit t0)) = down \<and> trace (snd (deinit t0)) = [Emit_state down]"
    using notifications_follow_states[OF c r0] by blast
  with o have "trace t0 = [] \<and> fst (deinit t0) = Inr Promise_resolved \<and>
            state (snd (deinit t0)) = down \<and> trace (snd (deinit t0)) = [Emit_state down]"
    by blast
  with h e c r s r0 o show ?thesis by blast
qed

theorem deinit_on_off_tree_fires_no_stopped:
  "map_option (\<lambda>t. (state t, trace t)) (run_from lonely [Call_deinit]) =
     Some (down, [Emit_state down])"
  by code_simp

text \<open>
  The words of the specification: the dependency edges of the constructor's argument, and
  the modules that it marks needed.
\<close>

section \<open>The needed closure\<close>

lemma deps_in_upd_needed [simp]:
  "deps_in (upd k (\<lambda>m. m\<lparr>needed := b\<rparr>) ms) = deps_in ms"
  by (rule ext) (auto simp: deps_in_def map_of_upd split: option.splits)

lemma edges_upd_needed [simp]: "edges (upd k (\<lambda>m. m\<lparr>needed := b\<rparr>) ms) = edges ms"
  by (simp add: edges_def)

lemma needed_in_upd:
  "needed_in (upd k (\<lambda>m. m\<lparr>needed := True\<rparr>) ms) n =
     (needed_in ms n \<or> (n = k \<and> map_of ms k \<noteq> None))"
  by (auto simp: needed_in_def map_of_upd split: option.splits)

lemma fillDeps_spec:
  assumes "fillDeps ds ms = Inr ms'"
  shows "deps_in ms' = deps_in ms \<and>
         (\<forall>n. needed_in ms n \<longrightarrow> needed_in ms' n) \<and>
         (\<forall>d \<in> set ds. needed_in ms' d) \<and>
         (\<forall>n. needed_in ms' n \<longrightarrow> needed_in ms n \<or> (\<exists>d \<in> set ds. (d, n) \<in> (edges ms)\<^sup>*)) \<and>
         (\<forall>n. needed_in ms' n \<longrightarrow> \<not> needed_in ms n \<longrightarrow>
              (\<forall>d \<in> set (deps_in ms n). needed_in ms' d))"
  using assms
proof (induction ds ms rule: fillDeps.induct)
  case (1 ms)
  then show ?case by simp
next
  case (2 d rest ms)
  then obtain y where y: "map_of ms d = Some y" by (auto split: option.splits)
  show ?case
  proof (cases "needed y")
    case True
    then have r: "fillDeps rest ms = Inr ms'" using "2.prems" y by simp
    have nd: "needed_in ms d" using y True by (simp add: needed_in_def)
    from "2.IH"(1)[OF y True r] nd show ?thesis by auto
  next
    case False
    let ?ms1 = "upd d (\<lambda>m. m\<lparr>needed := True\<rparr>) ms"
    have r: "fillDeps (dependencies y @ rest) ?ms1 = Inr ms'"
      using "2.prems" y False by simp
    note IH = "2.IH"(2)[OF y False r]
    have dy: "deps_in ms d = dependencies y" using y by (simp add: deps_in_def)
    have n1: "needed_in ?ms1 n \<longleftrightarrow> needed_in ms n \<or> n = d" for n
      using y by (auto simp: needed_in_upd)
    have a: "deps_in ms' = deps_in ms" using IH by simp
    have b: "\<forall>n. needed_in ms n \<longrightarrow> needed_in ms' n" using IH n1 by blast
    have c: "\<forall>x \<in> set (d # rest). needed_in ms' x" using IH n1 by auto
    have d: "needed_in ms n \<or> (\<exists>x \<in> set (d # rest). (x, n) \<in> (edges ms)\<^sup>*)"
      if "needed_in ms' n" for n
    proof -
      from IH that have "needed_in ?ms1 n \<or>
          (\<exists>x \<in> set (dependencies y @ rest). (x, n) \<in> (edges ms)\<^sup>*)" by simp
      then consider "needed_in ms n" | "n = d"
        | x where "x \<in> set (dependencies y)" "(x, n) \<in> (edges ms)\<^sup>*"
        | x where "x \<in> set rest" "(x, n) \<in> (edges ms)\<^sup>*"
        using n1 by auto
      then show ?thesis
      proof cases
        case 3
        have "(d, x) \<in> edges ms" using 3(1) dy by (simp add: edges_def)
        then have "(d, n) \<in> (edges ms)\<^sup>*" using 3(2) by (rule converse_rtrancl_into_rtrancl)
        then show ?thesis by auto
      qed auto
    qed
    have e: "\<forall>x \<in> set (deps_in ms n). needed_in ms' x"
      if "needed_in ms' n" "\<not> needed_in ms n" for n
    proof (cases "n = d")
      case True
      then show ?thesis using IH dy by auto
    next
      case False
      then have "\<not> needed_in ?ms1 n" using that(2) n1 by simp
      with IH that(1) show ?thesis by simp
    qed
    from a b c d e show ?thesis by blast
  qed
qed

lemma fillNeeded_spec:
  assumes "fillNeeded k ms = Inr ms'" and "needed_in ms k"
  shows "deps_in ms' = deps_in ms \<and>
         (\<forall>n. needed_in ms n \<longrightarrow> needed_in ms' n) \<and>
         (\<forall>d \<in> set (deps_in ms k). needed_in ms' d) \<and>
         (\<forall>n. needed_in ms' n \<longrightarrow> needed_in ms n \<or> (k, n) \<in> (edges ms)\<^sup>*) \<and>
         (\<forall>n. needed_in ms' n \<longrightarrow> \<not> needed_in ms n \<longrightarrow>
              (\<forall>d \<in> set (deps_in ms n). needed_in ms' d))"
proof -
  obtain y where y: "map_of ms k = Some y"
    and f: "fillDeps (dependencies y) (upd k (\<lambda>m. m\<lparr>needed := True\<rparr>) ms) = Inr ms'"
    using assms(1) by (auto simp: fillNeeded_def split: option.splits)
  have n1: "needed_in (upd k (\<lambda>m. m\<lparr>needed := True\<rparr>) ms) n \<longleftrightarrow> needed_in ms n" for n
    using y assms(2) by (auto simp: needed_in_upd)
  have dy: "deps_in ms k = dependencies y" using y by (simp add: deps_in_def)
  note S = fillDeps_spec[OF f, unfolded n1 deps_in_upd_needed edges_upd_needed]
  have "needed_in ms n \<or> (k, n) \<in> (edges ms)\<^sup>*" if "needed_in ms' n" for n
  proof -
    from S that consider "needed_in ms n"
      | x where "x \<in> set (dependencies y)" "(x, n) \<in> (edges ms)\<^sup>*" by blast
    then show ?thesis
    proof cases
      case 2
      have "(k, x) \<in> edges ms" using 2(1) dy by (simp add: edges_def)
      with 2(2) show ?thesis by (auto intro: converse_rtrancl_into_rtrancl)
    qed simp
  qed
  with S dy show ?thesis by auto
qed

lemma fill_loop_spec:
  assumes "fill_loop ns ms = Inr ms'"
    and "\<forall>x. needed_in ms x \<longrightarrow> x \<in> set ns \<or> (\<forall>d \<in> set (deps_in ms x). needed_in ms d)"
    and "\<forall>x. needed_in ms x \<longrightarrow> x \<in> R"
    and "\<forall>x y. x \<in> R \<longrightarrow> (x, y) \<in> (edges ms)\<^sup>* \<longrightarrow> y \<in> R"
  shows "deps_in ms' = deps_in ms \<and>
         (\<forall>n. needed_in ms n \<longrightarrow> needed_in ms' n) \<and>
         (\<forall>x. needed_in ms' x \<longrightarrow> (\<forall>d \<in> set (deps_in ms x). needed_in ms' d)) \<and>
         (\<forall>x. needed_in ms' x \<longrightarrow> x \<in> R)"
  using assms
proof (induction ns arbitrary: ms)
  case Nil
  then show ?case by auto
next
  case (Cons k ns)
  from Cons.prems(1) obtain y where y: "map_of ms k = Some y"
    by (auto split: option.splits)
  show ?case
  proof (cases "needed y")
    case True
    then obtain ms1 where f: "fillNeeded k ms = Inr ms1" and l: "fill_loop ns ms1 = Inr ms'"
      using Cons.prems(1) y by (auto split: sum.splits)
    have nk: "needed_in ms k" using y True by (simp add: needed_in_def)
    from fillNeeded_spec[OF f nk]
    have S1: "deps_in ms1 = deps_in ms"
      and S2: "\<And>n. needed_in ms n \<Longrightarrow> needed_in ms1 n"
      and S3: "\<And>d. d \<in> set (deps_in ms k) \<Longrightarrow> needed_in ms1 d"
      and S4: "\<And>n. needed_in ms1 n \<Longrightarrow> needed_in ms n \<or> (k, n) \<in> (edges ms)\<^sup>*"
      and S5: "\<And>n d. needed_in ms1 n \<Longrightarrow> \<not> needed_in ms n \<Longrightarrow>
                 d \<in> set (deps_in ms n) \<Longrightarrow> needed_in ms1 d"
      by blast+
    have e: "edges ms1 = edges ms" using S1 by (simp add: edges_def)
    have 1: "\<forall>x. needed_in ms1 x \<longrightarrow>
               x \<in> set ns \<or> (\<forall>d \<in> set (deps_in ms1 x). needed_in ms1 d)"
    proof (intro allI impI)
      fix x assume x: "needed_in ms1 x"
      show "x \<in> set ns \<or> (\<forall>d \<in> set (deps_in ms1 x). needed_in ms1 d)"
      proof (cases "needed_in ms x")
        case True
        with Cons.prems(2) consider "x = k" | "x \<in> set ns"
          | "\<forall>d \<in> set (deps_in ms x). needed_in ms d" by auto
        then show ?thesis
        proof cases
          case 1
          then show ?thesis using S3 S1 by simp
        next
          case 2
          then show ?thesis by simp
        next
          case 3
          then show ?thesis using S2 S1 by simp
        qed
      next
        case False
        then show ?thesis using S5[OF x] S1 by simp
      qed
    qed
    have kR: "k \<in> R" using Cons.prems(3) nk by simp
    have 2: "\<forall>x. needed_in ms1 x \<longrightarrow> x \<in> R"
    proof (intro allI impI)
      fix x assume "needed_in ms1 x"
      from S4[OF this] show "x \<in> R"
      proof
        assume "needed_in ms x" then show ?thesis using Cons.prems(3) by simp
      next
        assume "(k, x) \<in> (edges ms)\<^sup>*" with kR show ?thesis using Cons.prems(4) by blast
      qed
    qed
    have 3: "\<forall>x y. x \<in> R \<longrightarrow> (x, y) \<in> (edges ms1)\<^sup>* \<longrightarrow> y \<in> R"
      using Cons.prems(4) e by simp
    from Cons.IH[OF l 1 2 3]
    have I1: "deps_in ms' = deps_in ms1"
      and I2: "\<And>n. needed_in ms1 n \<Longrightarrow> needed_in ms' n"
      and I3: "\<forall>x. needed_in ms' x \<longrightarrow> (\<forall>d \<in> set (deps_in ms1 x). needed_in ms' d)"
      and I4: "\<forall>x. needed_in ms' x \<longrightarrow> x \<in> R"
      by blast+
    show ?thesis using I1 I2 I3 I4 S1 S2 by simp
  next
    case False
    then have l: "fill_loop ns ms = Inr ms'" using Cons.prems(1) y by simp
    have nk: "\<not> needed_in ms k" using y False by (simp add: needed_in_def)
    have 1: "\<forall>x. needed_in ms x \<longrightarrow>
               x \<in> set ns \<or> (\<forall>d \<in> set (deps_in ms x). needed_in ms d)"
      using Cons.prems(2) nk by auto
    from Cons.IH[OF l 1 Cons.prems(3,4)] show ?thesis .
  qed
qed

lemma in_upd_dependants [simp]:
  "deps_in (upd k (\<lambda>m. m\<lparr>dependants := g m\<rparr>) ms) = deps_in ms"
  "needed_in (upd k (\<lambda>m. m\<lparr>dependants := g m\<rparr>) ms) = needed_in ms"
  by (rule ext; auto simp: deps_in_def needed_in_def map_of_upd split: option.splits)+

lemma in_add_dependants:
  "add_dependants x ds ms = Inr ms' \<Longrightarrow> deps_in ms' = deps_in ms \<and> needed_in ms' = needed_in ms"
proof (induction ds arbitrary: ms)
  case Nil
  then show ?case by simp
next
  case (Cons d ds)
  from Cons.prems obtain y where "get_module ms d = Own y"
    and r: "add_dependants x ds (upd d (\<lambda>m. m\<lparr>dependants := dependants m @ [x]\<rparr>) ms) = Inr ms'"
    by (auto split: lookup.splits)
  from Cons.IH[OF r] show ?case by simp
qed

lemma in_link:
  "link ns ms = Inr ms' \<Longrightarrow> deps_in ms' = deps_in ms \<and> needed_in ms' = needed_in ms"
proof (induction ns arbitrary: ms)
  case Nil
  then show ?case by simp
next
  case (Cons n ns)
  from Cons.prems obtain m ms1 where "map_of ms n = Some m"
    and a: "add_dependants n (dependencies m) ms = Inr ms1" and l: "link ns ms1 = Inr ms'"
    by (auto split: option.splits sum.splits)
  from Cons.IH[OF l] in_add_dependants[OF a] show ?case by simp
qed

lemma map_of_new_modules:
  "map_of (map (\<lambda>(name, d). (name, new_module d)) input) n = map_option new_module (map_of input n)"
  by (induction input) auto

lemma closure_built:
  assumes "distinct (map fst input)" and "build input = Inr ms"
  shows "needed_in ms n \<longleftrightarrow> (\<exists>r. marked_needed input r \<and> (r, n) \<in> (depends_on input)\<^sup>*)"
proof -
  let ?ms0 = "map (\<lambda>(name, d). (name, new_module d)) input"
  obtain ms1 where l: "link (map fst ?ms0) ?ms0 = Inr ms1"
    and f: "fill_loop (map fst ms1) ms1 = Inr ms"
    using assms(2) by (auto simp: build_def Let_def split: sum.splits)
  have mo: "map_of input x = Some d \<longleftrightarrow> (x, d) \<in> set input" for x d
    using assms(1) by (auto intro: map_of_is_SomeI dest: map_of_SomeD)
  have d1: "deps_in ms1 = deps_in ?ms0" and n1: "needed_in ms1 = needed_in ?ms0"
    using in_link[OF l] by simp_all
  have dn: "deps_in ?ms0 x = (case map_of input x of None \<Rightarrow> []
               | Some d \<Rightarrow> (case deps d of None \<Rightarrow> [] | Some ds \<Rightarrow> ds))"
    and nn: "needed_in ?ms0 x = (case map_of input x of None \<Rightarrow> False
               | Some d \<Rightarrow> needed_flag d = Some True)" for x
    unfolding deps_in_def needed_in_def map_of_new_modules
    by (cases "map_of input x"; simp add: new_module_def Let_def)+
  have e: "edges ms1 = depends_on input"
  proof -
    have "y \<in> set (deps_in ?ms0 x) \<longleftrightarrow>
          (\<exists>d. (x, d) \<in> set input \<and> y \<in> set (case deps d of None \<Rightarrow> [] | Some ds \<Rightarrow> ds))"
      for x y
      unfolding dn by (cases "map_of input x") (auto simp: mo[symmetric])
    then show ?thesis by (auto simp: edges_def depends_on_def d1)
  qed
  have mk: "needed_in ms1 x \<longleftrightarrow> marked_needed input x" for x
    unfolding n1 nn marked_needed_def by (cases "map_of input x") (auto simp: mo[symmetric])
  let ?R = "{y. \<exists>r. marked_needed input r \<and> (r, y) \<in> (edges ms1)\<^sup>*}"
  have 1: "\<forall>x. needed_in ms1 x \<longrightarrow>
             x \<in> set (map fst ms1) \<or> (\<forall>d \<in> set (deps_in ms1 x). needed_in ms1 d)"
  proof (intro allI impI)
    fix x assume "needed_in ms1 x"
    then have "map_of ms1 x \<noteq> None" by (auto simp: needed_in_def split: option.splits)
    then have "x \<in> set (map fst ms1)" by (simp add: map_of_eq_None_iff)
    then show "x \<in> set (map fst ms1) \<or> (\<forall>d \<in> set (deps_in ms1 x). needed_in ms1 d)" ..
  qed
  have 2: "\<forall>x. needed_in ms1 x \<longrightarrow> x \<in> ?R" using mk by auto
  have 3: "\<forall>x y. x \<in> ?R \<longrightarrow> (x, y) \<in> (edges ms1)\<^sup>* \<longrightarrow> y \<in> ?R"
    by (auto intro: rtrancl_trans)
  from fill_loop_spec[OF f 1 2 3]
  have I2: "\<And>x. needed_in ms1 x \<Longrightarrow> needed_in ms x"
    and I3: "\<And>x d. needed_in ms x \<Longrightarrow> d \<in> set (deps_in ms1 x) \<Longrightarrow> needed_in ms d"
    and I4: "\<And>x. needed_in ms x \<Longrightarrow> x \<in> ?R"
    by blast+
  have "needed_in ms n" if "marked_needed input r" "(r, n) \<in> (edges ms1)\<^sup>*" for r
    using that(2)
  proof (induction rule: rtrancl_induct)
    case base
    then show ?case using that(1) mk I2 by simp
  next
    case (step y z)
    then have "z \<in> set (deps_in ms1 y)" by (simp add: edges_def)
    with step.IH show ?case by (rule I3)
  qed
  with I4 show ?thesis unfolding e by blast
qed

text \<open>
  C9. After a successful construction from an object (distinct keys), a module's \<open>needed\<close>
  flag is true if and only if the module is marked needed in its description or can be
  reached along dependency edges from a module that is.
\<close>

theorem needed_is_closure:
  assumes "wf_input input" and "constructor input = Inr t0" and "(n, m) \<in> set (modules t0)"
  shows "needed m \<longleftrightarrow> (\<exists>r. marked_needed input r \<and> (r, n) \<in> (depends_on input)\<^sup>*)"
proof -
  obtain ms where b: "build input = Inr ms" and m: "modules t0 = ms"
    using assms(2) by (auto simp: constructor_def split: sum.splits)
  have d: "distinct (map fst input)" using assms(1) by (simp add: wf_input_def)
  then have "distinct (map fst ms)" using built_keys[OF b] by simp
  then have "map_of ms n = Some m" using assms(3) m by (auto intro: map_of_is_SomeI)
  then have "needed m = needed_in ms n" by (simp add: needed_in_def)
  with closure_built[OF d b] show ?thesis by simp
qed

theorem needed_is_closure_witness:
  "\<exists>t0 m. wf_input diamond \<and> constructor diamond = Inr t0 \<and> (''a'', m) \<in> set (modules t0) \<and>
     needed m \<and> (\<exists>r. marked_needed diamond r \<and> (r, ''a'') \<in> (depends_on diamond)\<^sup>*)"
proof -
  let ?t0 = "projr (constructor diamond)"
  let ?m = "the (map_of (modules ?t0) ''a'')"
  have w: "wf_input diamond" by code_simp
  have "\<not> isl (constructor diamond)" by code_simp
  then have c: "constructor diamond = Inr ?t0" by simp
  have i: "(''a'', ?m) \<in> set (modules ?t0)" by code_simp
  have n: "needed ?m" by code_simp
  from needed_is_closure[OF w c i] n w c i show ?thesis by blast
qed

text \<open>What the scheduling reads from the trace and from the registry.\<close>

section \<open>Reading the trace\<close>

lemma invocations_Cons [simp]:
  "invocations n (e # s) = (if is_invoke n e then 1 else 0) + invocations n s"
  by (simp add: invocations_def)

lemma invocations_Nil [simp]: "invocations n [] = 0"
  by (simp add: invocations_def)

lemma invocations_append [simp]:
  "invocations n (tr @ s) = invocations n tr + invocations n s"
  by (simp add: invocations_def)

lemma was_up_append [simp]: "was_up n (tr @ s) \<longleftrightarrow> was_up n tr \<or> was_up n s"
  by (auto simp: was_up_def)

lemma was_up_Cons [simp]:
  "was_up n (e # s) \<longleftrightarrow> e = Emit_module_state n up \<or> was_up n s"
  by (auto simp: was_up_def)

lemma was_up_Nil [simp]: "\<not> was_up n []"
  by (simp add: was_up_def)

lemma each_after_Nil [simp]: "each_after \<Phi> []"
  by (simp add: each_after_def)

lemma each_after_snoc [simp]:
  "each_after \<Phi> (tr @ [e]) \<longleftrightarrow> each_after \<Phi> tr \<and> \<Phi> e tr"
  by (auto simp: each_after_def nth_append less_Suc_eq)

lemma each_after_single [simp]: "each_after \<Phi> [e] \<longleftrightarrow> \<Phi> e []"
  using each_after_snoc[of \<Phi> "[]" e] by simp

lemma count_list_remove1_le: "count_list (remove1 k xs) x \<le> count_list xs x"
  by (induction xs) auto

lemma count_list_remove1: "count_list (remove1 x xs) x = count_list xs x - 1"
  by (induction xs) auto

lemma count_list_pos: "x \<in> set xs \<Longrightarrow> 0 < count_list xs x"
  by (induction xs) auto

lemma invocations_take: "invocations n (take i tr) \<le> invocations n tr"
proof -
  have "invocations n tr = invocations n (take i tr) + invocations n (drop i tr)"
    by (metis append_take_drop_id invocations_append)
  then show ?thesis by simp
qed

section \<open>What never changes in the registry\<close>

lemma statics_upd:
  "(\<And>m. dependencies (f m) = dependencies m \<and> dependants (f m) = dependants m \<and>
        needed (f m) = needed m) \<Longrightarrow> statics (upd k f ms) = statics ms"
  by (induction ms) (auto simp: statics_def upd_def)

lemma statics_keys: "statics ms = statics ms' \<Longrightarrow> map fst ms = map fst ms'"
proof -
  assume "statics ms = statics ms'"
  then have "map fst (statics ms) = map fst (statics ms')" by simp
  then show ?thesis by (simp add: statics_def comp_def case_prod_unfold)
qed

lemma map_of_statics:
  "map_of (statics ms) n =
     map_option (\<lambda>m. (dependencies m, dependants m, needed m)) (map_of ms n)"
  by (induction ms) (auto simp: statics_def)

lemma statics_deps_in: "statics ms = statics ms' \<Longrightarrow> deps_in ms = deps_in ms'"
proof (rule ext)
  fix n assume "statics ms = statics ms'"
  then have "map_of (statics ms) n = map_of (statics ms') n" by simp
  then show "deps_in ms n = deps_in ms' n"
    by (auto simp: map_of_statics deps_in_def split: option.splits)
qed

lemma statics_dants_in: "statics ms = statics ms' \<Longrightarrow> dants_in ms = dants_in ms'"
proof (rule ext)
  fix n assume "statics ms = statics ms'"
  then have "map_of (statics ms) n = map_of (statics ms') n" by simp
  then show "dants_in ms n = dants_in ms' n"
    by (auto simp: map_of_statics dants_in_def split: option.splits)
qed

lemma statics_needed_in: "statics ms = statics ms' \<Longrightarrow> needed_in ms = needed_in ms'"
proof (rule ext)
  fix n assume "statics ms = statics ms'"
  then have "map_of (statics ms) n = map_of (statics ms') n" by simp
  then show "needed_in ms n = needed_in ms' n"
    by (auto simp: map_of_statics needed_in_def split: option.splits)
qed

lemma linked_statics: "statics ms = statics ms' \<Longrightarrow> linked ms \<Longrightarrow> linked ms'"
  using statics_keys[of ms ms'] statics_deps_in[of ms ms'] statics_dants_in[of ms ms']
  by (simp add: linked_def)

section \<open>The scheduling invariant and the elementary operations\<close>

lemma is_invoke_iff: "is_invoke n e \<longleftrightarrow> (\<exists>obj. e = Invoke_init n obj)"
  by (cases e) auto

lemma progress_fields [simp]:
  "progress rest t0 (t\<lparr>modulesToUnload := a\<rparr>) = progress rest t0 t"
  "progress rest t0 (t\<lparr>modulesToLoad := b\<rparr>) = progress rest t0 t"
  "progress rest t0 (t\<lparr>errors := c\<rparr>) = progress rest t0 t"
  "progress rest t0 (t\<lparr>state := d\<rparr>) = progress rest t0 t"
  "progress rest t0 (t\<lparr>initDefer := e\<rparr>) = progress rest t0 t"
  "progress rest t0 (t\<lparr>deinitDefer := f\<rparr>) = progress rest t0 t"
  "progress rest t0 (t\<lparr>deferreds := g\<rparr>) = progress rest t0 t"
  "progress rest t0 (t\<lparr>error_listeners := h\<rparr>) = progress rest t0 t"
  by (simp_all add: progress_def)

lemma progress_weaken: "progress rest t0 t \<Longrightarrow> progress [] t0 t"
  by (simp add: progress_def counted_def) force

lemma once_quiet:
  "once pd tr \<Longrightarrow> \<forall>n obj. e \<noteq> Invoke_init n obj \<Longrightarrow> \<forall>n. e \<noteq> Emit_module_state n up \<Longrightarrow>
     once pd (tr @ [e])"
  by (simp add: once_def is_invoke_iff)

lemma counted_quiet:
  "counted rest ms0 ms pd tr \<Longrightarrow> \<forall>n obj. e \<noteq> Invoke_init n obj \<Longrightarrow>
     \<forall>n. e \<noteq> Emit_module_state n up \<Longrightarrow> counted rest ms0 ms pd (tr @ [e])"
  by (simp add: counted_def is_invoke_iff)

lemma in_order_quiet:
  "in_order ms tr \<Longrightarrow> \<forall>n obj. e \<noteq> Invoke_init n obj \<Longrightarrow> in_order ms (tr @ [e])"
  by (simp add: in_order_def is_invoke_iff)

lemma progress_emit:
  "progress rest t0 t \<Longrightarrow> \<forall>n obj. e \<noteq> Invoke_init n obj \<Longrightarrow>
     \<forall>n. e \<noteq> Emit_module_state n up \<Longrightarrow> progress rest t0 (emit e t)"
  by (simp add: progress_def once_quiet counted_quiet in_order_quiet)

lemma progress_changeState: "progress rest t0 t \<Longrightarrow> progress rest t0 (changeState s t)"
  by (simp add: changeState_def progress_emit)

lemma progress_resolve: "progress rest t0 t \<Longrightarrow> progress rest t0 (resolve d t)"
  by (simp add: resolve_def progress_emit split: option.splits)

lemma counted_upd:
  assumes "counted rest ms0 ms pd tr"
    and "\<And>m. dependencies (f m) = dependencies m \<and>
           dependenciesToLoad (f m) = dependenciesToLoad m"
    and "\<And>m. map_of ms k = Some m \<Longrightarrow>
           (Init_op k \<in> set pd \<longrightarrow> state_m (f m) = initializing) \<and>
           (state_m (f m) = up \<longrightarrow> was_up k tr) \<and>
           (invocations k tr = 0 \<or> Init_op k \<in> set pd \<longrightarrow> data (f m) = data m)"
  shows "counted rest ms0 (upd k f ms) pd tr"
  unfolding counted_def
proof (intro allI impI)
  fix n m assume a: "map_of (upd k f ms) n = Some m"
  show "(0 < invocations n tr \<longrightarrow> dependenciesToLoad m \<le> 0) \<and>
        int (length (filter (\<lambda>d. \<not> was_up d tr) (dependencies m))) + int (count_list rest n)
          \<le> dependenciesToLoad m \<and>
        (Init_op n \<in> set pd \<longrightarrow> state_m m = initializing) \<and>
        (state_m m = up \<longrightarrow> was_up n tr) \<and>
        (invocations n tr = 0 \<or> Init_op n \<in> set pd \<longrightarrow>
           Some (data m) = map_option data (map_of ms0 n))"
  proof (cases "n = k")
    case True
    with a obtain m' where m': "map_of ms k = Some m'" "m = f m'"
      by (auto simp: map_of_upd)
    from assms(1) m'(1) True have
      "(0 < invocations n tr \<longrightarrow> dependenciesToLoad m' \<le> 0) \<and>
        int (length (filter (\<lambda>d. \<not> was_up d tr) (dependencies m'))) + int (count_list rest n)
          \<le> dependenciesToLoad m' \<and>
        (invocations n tr = 0 \<or> Init_op n \<in> set pd \<longrightarrow>
           Some (data m') = map_option data (map_of ms0 n))"
      by (simp add: counted_def)
    with assms(2)[of m'] assms(3)[OF m'(1)] m'(2) True show ?thesis by simp
  next
    case False
    with a have "map_of ms n = Some m" by (simp add: map_of_upd)
    with assms(1) show ?thesis by (simp add: counted_def)
  qed
qed

lemma progress_on_module:
  assumes "progress rest t0 t"
    and "\<And>m. dependencies (f m) = dependencies m \<and> dependants (f m) = dependants m \<and>
           needed (f m) = needed m \<and> dependenciesToLoad (f m) = dependenciesToLoad m \<and>
           data (f m) = data m \<and> state_m (f m) = state_m m"
  shows "progress rest t0 (on_module k f t)"
proof -
  have "counted rest (modules t0) (upd k f (modules t)) (pending t) (trace t)"
  proof (rule counted_upd)
    show "counted rest (modules t0) (modules t) (pending t) (trace t)"
      using assms(1) by (simp add: progress_def)
    show "\<And>m. dependencies (f m) = dependencies m \<and>
           dependenciesToLoad (f m) = dependenciesToLoad m"
      using assms(2) by simp
    show "\<And>m. map_of (modules t) k = Some m \<Longrightarrow>
           (Init_op k \<in> set (pending t) \<longrightarrow> state_m (f m) = initializing) \<and>
           (state_m (f m) = up \<longrightarrow> was_up k (trace t)) \<and>
           (invocations k (trace t) = 0 \<or> Init_op k \<in> set (pending t) \<longrightarrow>
              data (f m) = data m)"
      using assms by (simp add: progress_def counted_def)
  qed
  moreover have "statics (upd k f (modules t)) = statics (modules t)"
    by (rule statics_upd) (simp add: assms(2))
  ultimately show ?thesis using assms(1) by (simp add: progress_def)
qed

lemma progress_state_upd:
  assumes "progress rest t0 t" and "s \<noteq> up"
    and "s \<noteq> initializing \<longrightarrow> Init_op k \<notin> set (pending t)"
  shows "progress rest t0 (on_module k (\<lambda>m. m\<lparr>state_m := s\<rparr>) t)"
proof -
  have "counted rest (modules t0) (upd k (\<lambda>m. m\<lparr>state_m := s\<rparr>) (modules t)) (pending t) (trace t)"
  proof (rule counted_upd)
    show "counted rest (modules t0) (modules t) (pending t) (trace t)"
      using assms(1) by (simp add: progress_def)
  qed (use assms in auto)
  moreover have "statics (upd k (\<lambda>m. m\<lparr>state_m := s\<rparr>) (modules t)) = statics (modules t)"
    by (rule statics_upd) simp
  ultimately show ?thesis using assms(1) by (simp add: progress_def)
qed

lemma progress_changeModuleState:
  assumes "progress rest t0 t" and "s \<noteq> up"
    and "s \<noteq> initializing \<longrightarrow> Init_op k \<notin> set (pending t)"
  shows "progress rest t0 (changeModuleState k s t)"
  unfolding changeModuleState_def
  by (rule progress_emit[OF progress_state_upd[OF assms]]) (use assms(2) in auto)

lemma progress_pending_deinit:
  assumes "progress rest t0 t" and "0 < invocations k (trace t)"
    and "Init_op k \<notin> set (pending t)"
  shows "progress rest t0 (t\<lparr>pending := pending t @ [Deinit_op k]\<rparr>)"
  using assms by (simp add: progress_def once_def counted_def) 

lemma progress_deinitModule:
  assumes "progress rest t0 t" and "0 < invocations k (trace t)"
    and "Init_op k \<notin> set (pending t)"
  shows "progress rest t0 (deinitModule k t)"
proof -
  let ?t1 = "changeModuleState k deinitializing t"
  let ?t2 = "emit (Invoke_deinit k) ?t1"
  have "progress rest t0 ?t1"
    by (rule progress_changeModuleState) (use assms in auto)
  then have "progress rest t0 ?t2" by (rule progress_emit) auto
  then have "progress rest t0 (?t2\<lparr>pending := pending ?t2 @ [Deinit_op k]\<rparr>)"
    by (rule progress_pending_deinit) (use assms in \<open>auto simp: is_invoke_iff\<close>)
  then show ?thesis by (simp add: deinitModule_def Let_def)
qed

section \<open>The scheduling invariant and the unwinding\<close>

lemma progress_was_up:
  assumes "progress rest t0 t" and "was_up k (trace t)"
  shows "0 < invocations k (trace t) \<and> Init_op k \<notin> set (pending t)"
proof -
  from assms have "count_list (pending t) (Init_op k) + 1 \<le> invocations k (trace t)"
    and "invocations k (trace t) \<le> 1"
    by (auto simp: progress_def once_def split: if_splits)
  then have "0 < invocations k (trace t)" and "count_list (pending t) (Init_op k) = 0"
    by auto
  then show ?thesis by (simp add: count_list_0_iff)
qed

lemma invoked_at:
  assumes "0 < invocations n tr"
  shows "\<exists>i obj. i < length tr \<and> tr ! i = Invoke_init n obj"
proof -
  from assms have "filter (is_invoke n) tr \<noteq> []" by (auto simp: invocations_def)
  then obtain e where "e \<in> set tr" "is_invoke n e"
    by (auto simp: filter_empty_conv)
  then show ?thesis by (auto simp: in_set_conv_nth is_invoke_iff)
qed

lemma was_up_take: "was_up d (take i tr) \<Longrightarrow> was_up d tr"
  by (auto simp: was_up_def dest: in_set_takeD)

lemma progress_dependencies_up:
  assumes "progress rest t0 t" and "0 < invocations n (trace t)"
    and "d \<in> set (deps_in (modules t0) n)"
  shows "was_up d (trace t)"
proof -
  from invoked_at[OF assms(2)] obtain i obj where
    i: "i < length (trace t)" "trace t ! i = Invoke_init n obj" by blast
  from assms(1) have "each_after (\<lambda>e pre. \<forall>n obj. e = Invoke_init n obj \<longrightarrow>
                   (\<forall>d \<in> set (deps_in (modules t0) n). was_up d pre)) (trace t)"
    by (simp add: progress_def in_order_def)
  with i assms(3) have "was_up d (take i (trace t))"
    by (auto simp: each_after_def)
  then show ?thesis by (rule was_up_take)
qed

lemma progress_deinit_loop: "progress rest t0 t \<Longrightarrow> progress rest t0 (deinit_loop ns t)"
proof (induction ns arbitrary: t)
  case Nil
  then show ?case by simp
next
  case (Cons x ns)
  show ?case
  proof (cases "map_of (modules t) x")
    case None
    then show ?thesis using Cons by simp
  next
    case (Some m)
    show ?thesis
    proof (cases "state_m m = up \<and> dependantsToUnload m = 0")
      case True
      with Cons.prems Some have "was_up x (trace t)"
        by (simp add: progress_def counted_def)
      from progress_was_up[OF Cons.prems this]
      have "progress rest t0 (deinitModule x t)"
        by (intro progress_deinitModule[OF Cons.prems]) auto
      from Cons.IH[OF this] True Some show ?thesis by simp
    next
      case False
      then show ?thesis using Cons Some by auto
    qed
  qed
qed

lemma progress_deinit: "progress rest t0 t \<Longrightarrow> progress rest t0 (snd (deinit t))"
  by (cases "state t")
     (simp_all add: deinit_def Let_def progress_changeState progress_deinit_loop)

lemma progress_push_and_deinit:
  "progress rest t0 t \<Longrightarrow> progress rest t0 (push_and_deinit err t)"
proof -
  assume p: "progress rest t0 t"
  let ?t2 = "t\<lparr>errors := errors t @ [err]\<rparr>"
  from p have "progress rest t0 (snd (deinit ?t2))" by (intro progress_deinit) simp
  then show ?thesis
    by (auto simp: push_and_deinit_def Let_def split: prod.splits sum.splits
             intro: progress_emit)
qed

lemma progress_error_method:
  "progress rest t0 t \<Longrightarrow> progress rest t0 (error_method err name t)"
  by (simp add: error_method_def progress_push_and_deinit progress_emit)

lemma progress_dependencies_loop:
  assumes "progress rest t0 t" and "\<forall>d \<in> set ds. was_up d (trace t)"
  shows "progress rest t0 (dependencies_loop ds t)"
  using assms
proof (induction ds arbitrary: t)
  case Nil
  then show ?case by simp
next
  case (Cons d ds)
  let ?t1 = "on_module d (\<lambda>m. m\<lparr>dependantsToUnload := dependantsToUnload m - 1\<rparr>) t"
  have p1: "progress rest t0 ?t1"
    by (rule progress_on_module[OF Cons.prems(1)]) simp
  have u1: "\<forall>x \<in> set ds. was_up x (trace ?t1)" using Cons.prems(2) by simp
  have d1: "was_up d (trace ?t1)" using Cons.prems(2) by simp
  from progress_was_up[OF p1 d1]
  have p2: "progress rest t0 (deinitModule d ?t1)"
    by (intro progress_deinitModule[OF p1]) auto
  have u2: "\<forall>x \<in> set ds. was_up x (trace (deinitModule d ?t1))"
    using Cons.prems(2) by simp
  show ?case
    using Cons.IH[OF p1 u1] Cons.IH[OF p2 u2]
    by (simp add: Let_def split: option.splits)
qed

lemma progress_deinit_countdown:
  assumes "progress rest t0 t" and "0 < invocations name (trace t)"
  shows "progress rest t0 (deinit_countdown name t)"
proof -
  let ?t1 = "t\<lparr>modulesToUnload := modulesToUnload t - 1\<rparr>"
  have p1: "progress rest t0 ?t1" using assms(1) by simp
  have "deps_in (modules t) = deps_in (modules t0)"
    using assms(1) by (intro statics_deps_in) (simp add: progress_def)
  then have "deps_in (modules t) name = deps_in (modules t0) name" by simp
  then have "dependencies_of ?t1 name = deps_in (modules t0) name"
    by (simp add: dependencies_of_def deps_in_def)
  with progress_dependencies_up[OF assms]
  have "\<forall>d \<in> set (dependencies_of ?t1 name). was_up d (trace ?t1)" by simp
  from progress_dependencies_loop[OF p1 this] p1 show ?thesis
    by (simp add: deinit_countdown_def Let_def progress_emit progress_changeState
                  progress_resolve)
qed

lemma progress_deinit_succeeded:
  assumes "progress rest t0 t" and "0 < invocations name (trace t)"
    and "Init_op name \<notin> set (pending t)"
  shows "progress rest t0 (deinit_succeeded name t)"
  unfolding deinit_succeeded_def
  by (rule progress_deinit_countdown[OF progress_changeModuleState])
     (use assms in auto)

lemma trace_grows_deinit_loop: "\<exists>s. trace (deinit_loop ns t) = trace t @ s"
proof (induction ns arbitrary: t)
  case Nil
  then show ?case by simp
next
  case (Cons x ns)
  from Cons[of t] Cons[of "deinitModule x t"] show ?case
    by (auto split: option.splits)
qed

lemma trace_grows_error_method: "\<exists>s. trace (error_method err name t) = trace t @ s"
proof -
  have d: "\<exists>s. trace (snd (deinit u)) = trace u @ s" for u
  proof -
    let ?v = "(changeState deinitializing u)\<lparr>deinitDefer := Some (deferreds u),
                                              deferreds := deferreds u + 1\<rparr>"
    obtain s where "trace (deinit_loop (map fst (modules u)) ?v) = trace ?v @ s"
      using trace_grows_deinit_loop by blast
    then show ?thesis by (cases "state u") (auto simp: deinit_def Let_def)
  qed
  have "\<exists>s. trace (push_and_deinit err u) = trace u @ s" for u
    using d[of "u\<lparr>errors := errors u @ [err]\<rparr>"]
    by (auto simp: push_and_deinit_def Let_def split: prod.splits sum.splits)
  from this[of "emit (Emit_error err (case name of None \<Rightarrow> [] | Some n \<Rightarrow> n)) t"]
       this[of "emit (Console_error err) t"]
  show ?thesis by (auto simp: error_method_def)
qed

lemma progress_deinit_failed:
  assumes "progress rest t0 t" and "0 < invocations name (trace t)"
    and "Init_op name \<notin> set (pending t)"
  shows "progress rest t0 (deinit_failed name err t)"
proof -
  let ?t1 = "changeModuleState name error t"
  let ?t2 = "on_module name (\<lambda>m. m\<lparr>error_m := Some err\<rparr>) ?t1"
  let ?t3 = "error_method err (Some name) ?t2"
  have "progress rest t0 ?t1"
    by (rule progress_changeModuleState) (use assms in auto)
  then have "progress rest t0 ?t2" by (rule progress_on_module) simp
  then have p3: "progress rest t0 ?t3" by (rule progress_error_method)
  obtain s where "trace ?t3 = trace ?t2 @ s"
    using trace_grows_error_method by blast
  with assms(2) have "0 < invocations name (trace ?t3)" by simp
  from progress_deinit_countdown[OF p3 this] show ?thesis
    by (simp add: deinit_failed_def Let_def)
qed

lemma progress_init_failed:
  assumes "progress rest t0 t" and "Init_op name \<notin> set (pending t)"
  shows "progress rest t0 (init_failed name err t)"
proof -
  let ?t1 = "t\<lparr>modulesToUnload := modulesToUnload t - 1\<rparr>"
  let ?t2 = "changeModuleState name error ?t1"
  let ?t3 = "on_module name (\<lambda>m. m\<lparr>error_m := Some err\<rparr>) ?t2"
  have "progress rest t0 ?t2"
    by (rule progress_changeModuleState) (use assms in auto)
  then have "progress rest t0 ?t3" by (rule progress_on_module) simp
  then show ?thesis
    by (simp add: init_failed_def Let_def progress_error_method)
qed

section \<open>The scheduling invariant and the initialization\<close>

lemma filter_not_up:
  "\<not> W n \<Longrightarrow>
     length (filter (\<lambda>d. \<not> (W d \<or> d = n)) xs) + count_list xs n =
     length (filter (\<lambda>d. \<not> W d) xs)"
  by (induction xs) auto

lemma progress_module_up:
  assumes "progress [] t0 t" and "Init_op n \<notin> set (pending t)"
    and "0 < invocations n (trace t)" and "\<not> was_up n (trace t)"
  shows "progress (dants_in (modules t0) n) t0 (changeModuleState n up t)"
proof -
  let ?ms = "upd n (\<lambda>m. m\<lparr>state_m := up\<rparr>) (modules t)"
  let ?tr = "trace t @ [Emit_module_state n up]"
  have st: "statics ?ms = statics (modules t0)"
    using assms(1) by (simp add: progress_def statics_upd)
  have lk: "linked (modules t0)" using assms(1) by (simp add: progress_def)
  have dp: "deps_in (modules t) = deps_in (modules t0)"
    using assms(1) by (intro statics_deps_in) (simp add: progress_def)
  have o: "once (pending t) (trace t)" using assms(1) by (simp add: progress_def)
  have cn: "count_list (pending t) (Init_op n) = 0"
    using assms(2) by (simp add: count_list_0_iff)
  have on: "once (pending t) ?tr"
    unfolding once_def
  proof (intro conjI allI impI)
    show "count_list (pending t) Microtask \<le> 1" using o by (simp add: once_def)
    show "invocations k ?tr = 0" if "Microtask \<in> set (pending t)" for k
      using that o by (simp add: once_def)
    show "count_list (pending t) (Init_op k) + (if was_up k ?tr then 1 else 0)
            \<le> invocations k ?tr" for k
    proof (cases "k = n")
      case True
      then show ?thesis using cn assms(3) by simp
    next
      case False
      then show ?thesis using o by (simp add: once_def)
    qed
    show "invocations k ?tr \<le> 1" for k using o by (simp add: once_def)
    show "0 < invocations k ?tr" if "Deinit_op k \<in> set (pending t)" for k
      using that o by (simp add: once_def)
    show "Init_op k \<notin> set (pending t)" if "Deinit_op k \<in> set (pending t)" for k
      using that o by (simp add: once_def)
  qed
  have io: "in_order (modules t0) ?tr"
    using assms(1) by (simp add: progress_def in_order_quiet)
  have c: "counted [] (modules t0) (modules t) (pending t) (trace t)"
    using assms(1) by (simp add: progress_def)
  have co: "counted (dants_in (modules t0) n) (modules t0) ?ms (pending t) ?tr"
    unfolding counted_def
  proof (intro allI impI)
    fix k m assume a: "map_of ?ms k = Some m"
    then obtain m' where m': "map_of (modules t) k = Some m'"
      and m: "m = (if k = n then m'\<lparr>state_m := up\<rparr> else m')"
      by (auto simp: map_of_upd split: if_splits)
    from c m' have f:
      "(0 < invocations k (trace t) \<longrightarrow> dependenciesToLoad m' \<le> 0)"
      "int (length (filter (\<lambda>d. \<not> was_up d (trace t)) (dependencies m')))
          \<le> dependenciesToLoad m'"
      "(Init_op k \<in> set (pending t) \<longrightarrow> state_m m' = initializing)"
      "(state_m m' = up \<longrightarrow> was_up k (trace t))"
      "(invocations k (trace t) = 0 \<or> Init_op k \<in> set (pending t) \<longrightarrow>
           Some (data m') = map_option data (map_of (modules t0) k))"
      by (simp_all add: counted_def)
    have "count_list (dants_in (modules t0) n) k = count_list (deps_in (modules t0) k) n"
      using lk by (simp add: linked_def)
    also have "\<dots> = count_list (dependencies m') n"
      using m' dp[symmetric] by (simp add: deps_in_def)
    finally have cnt: "count_list (dants_in (modules t0) n) k = count_list (dependencies m') n" .
    have "length (filter (\<lambda>d. \<not> (was_up d (trace t) \<or> d = n)) (dependencies m')) +
            count_list (dependencies m') n =
          length (filter (\<lambda>d. \<not> was_up d (trace t)) (dependencies m'))"
      by (rule filter_not_up) (rule assms(4))
    with f(2) cnt have j2:
      "int (length (filter (\<lambda>d. \<not> (was_up d (trace t) \<or> d = n)) (dependencies m'))) +
         int (count_list (dants_in (modules t0) n) k) \<le> dependenciesToLoad m'"
      by simp
    have dm: "dependencies m = dependencies m'" "dependenciesToLoad m = dependenciesToLoad m'"
      "data m = data m'"
      using m by auto
    show "(0 < invocations k ?tr \<longrightarrow> dependenciesToLoad m \<le> 0) \<and>
        int (length (filter (\<lambda>d. \<not> was_up d ?tr) (dependencies m))) +
          int (count_list (dants_in (modules t0) n) k) \<le> dependenciesToLoad m \<and>
        (Init_op k \<in> set (pending t) \<longrightarrow> state_m m = initializing) \<and>
        (state_m m = up \<longrightarrow> was_up k ?tr) \<and>
        (invocations k ?tr = 0 \<or> Init_op k \<in> set (pending t) \<longrightarrow>
           Some (data m) = map_option data (map_of (modules t0) k))"
      using f j2 assms(2) by (auto simp: dm m eq_commute[of n])
  qed
  from st lk on co io show ?thesis by (simp add: progress_def)
qed

lemma progress_decrement:
  assumes "progress (x # rest) t0 t"
  shows "progress rest t0
           (on_module x (\<lambda>m. m\<lparr>dependenciesToLoad := dependenciesToLoad m - 1\<rparr>) t)"
proof -
  let ?ms = "upd x (\<lambda>m. m\<lparr>dependenciesToLoad := dependenciesToLoad m - 1\<rparr>) (modules t)"
  have st: "statics ?ms = statics (modules t0)"
    using assms(1) by (simp add: progress_def statics_upd)
  have c: "counted (x # rest) (modules t0) (modules t) (pending t) (trace t)"
    using assms(1) by (simp add: progress_def)
  have "counted rest (modules t0) ?ms (pending t) (trace t)"
    unfolding counted_def
  proof (intro allI impI)
    fix k m assume a: "map_of ?ms k = Some m"
    then obtain m' where m': "map_of (modules t) k = Some m'"
      and m: "m = (if k = x then m'\<lparr>dependenciesToLoad := dependenciesToLoad m' - 1\<rparr> else m')"
      by (auto simp: map_of_upd split: if_splits)
    from c m' have f:
      "(0 < invocations k (trace t) \<longrightarrow> dependenciesToLoad m' \<le> 0)"
      "int (length (filter (\<lambda>d. \<not> was_up d (trace t)) (dependencies m'))) +
          int (count_list (x # rest) k) \<le> dependenciesToLoad m'"
      "(Init_op k \<in> set (pending t) \<longrightarrow> state_m m' = initializing)"
      "(state_m m' = up \<longrightarrow> was_up k (trace t))"
      "(invocations k (trace t) = 0 \<or> Init_op k \<in> set (pending t) \<longrightarrow>
           Some (data m') = map_option data (map_of (modules t0) k))"
      by (simp_all add: counted_def)
    show "(0 < invocations k (trace t) \<longrightarrow> dependenciesToLoad m \<le> 0) \<and>
        int (length (filter (\<lambda>d. \<not> was_up d (trace t)) (dependencies m))) +
          int (count_list rest k) \<le> dependenciesToLoad m \<and>
        (Init_op k \<in> set (pending t) \<longrightarrow> state_m m = initializing) \<and>
        (state_m m = up \<longrightarrow> was_up k (trace t)) \<and>
        (invocations k (trace t) = 0 \<or> Init_op k \<in> set (pending t) \<longrightarrow>
           Some (data m) = map_option data (map_of (modules t0) k))"
      using f by (cases "k = x") (auto simp: m)
  qed
  with st assms show ?thesis by (simp add: progress_def)
qed

lemma progress_invoke:
  assumes "progress rest t0 t" and "map_of (modules t) n = Some m"
    and "dependenciesToLoad m = 0" and "state_m m = initializing"
    and "invocations n (trace t) = 0" and "Microtask \<notin> set (pending t)"
  shows "progress rest t0
           ((emit (Invoke_init n obj) t)\<lparr>pending := pending t @ [Init_op n]\<rparr>)"
proof -
  let ?tr = "trace t @ [Invoke_init n obj]"
  let ?pd = "pending t @ [Init_op n]"
  have dp: "deps_in (modules t) = deps_in (modules t0)"
    using assms(1) by (intro statics_deps_in) (simp add: progress_def)
  have ks: "map fst (modules t) = map fst (modules t0)"
    using assms(1) by (intro statics_keys) (simp add: progress_def)
  have o: "once (pending t) (trace t)" using assms(1) by (simp add: progress_def)
  have c: "counted rest (modules t0) (modules t) (pending t) (trace t)"
    using assms(1) by (simp add: progress_def)
  from o assms(5) have np: "count_list (pending t) (Init_op n) = 0" "\<not> was_up n (trace t)"
    "Deinit_op n \<notin> set (pending t)"
    by (auto simp: once_def split: if_splits dest: spec[of _ n])
  have on: "once ?pd ?tr"
    unfolding once_def
  proof (intro conjI allI impI)
    show "count_list ?pd Microtask \<le> 1" using o by (simp add: once_def)
    show "invocations k ?tr = 0" if "Microtask \<in> set ?pd" for k
      using that assms(6) by simp
    show "count_list ?pd (Init_op k) + (if was_up k ?tr then 1 else 0) \<le> invocations k ?tr" for k
      using o np by (cases "k = n") (auto simp: once_def)
    show "invocations k ?tr \<le> 1" for k
      using o assms(5) by (cases "k = n") (auto simp: once_def)
    show "0 < invocations k ?tr" if "Deinit_op k \<in> set ?pd" for k
      using that o by (auto simp: once_def)
    show "Init_op k \<notin> set ?pd" if "Deinit_op k \<in> set ?pd" for k
      using that o np(3) by (cases "k = n") (auto simp: once_def)
  qed
  from c assms(2) have
    "int (length (filter (\<lambda>d. \<not> was_up d (trace t)) (dependencies m))) +
       int (count_list rest n) \<le> dependenciesToLoad m"
    by (simp add: counted_def)
  with assms(3) have "int (length (filter (\<lambda>d. \<not> was_up d (trace t)) (dependencies m))) \<le> 0"
    by linarith
  then have "length (filter (\<lambda>d. \<not> was_up d (trace t)) (dependencies m)) = 0"
    by linarith
  then have "filter (\<lambda>d. \<not> was_up d (trace t)) (dependencies m) = []" by simp
  then have "\<forall>d \<in> set (dependencies m). was_up d (trace t)"
    by (simp add: filter_empty_conv)
  moreover have "deps_in (modules t0) n = dependencies m"
    using assms(2) dp[symmetric] by (simp add: deps_in_def)
  moreover have "n \<in> fst ` set (modules t0)"
    using assms(2) ks by (metis image_set map_of_SomeD fst_conv image_eqI)
  ultimately have io: "in_order (modules t0) ?tr"
    using assms(1) by (auto simp: progress_def in_order_def)
  have co: "counted rest (modules t0) (modules t) ?pd ?tr"
    unfolding counted_def
  proof (intro allI impI)
    fix k m' assume a: "map_of (modules t) k = Some m'"
    from c a have f:
      "(0 < invocations k (trace t) \<longrightarrow> dependenciesToLoad m' \<le> 0)"
      "int (length (filter (\<lambda>d. \<not> was_up d (trace t)) (dependencies m'))) +
          int (count_list rest k) \<le> dependenciesToLoad m'"
      "(Init_op k \<in> set (pending t) \<longrightarrow> state_m m' = initializing)"
      "(state_m m' = up \<longrightarrow> was_up k (trace t))"
      "(invocations k (trace t) = 0 \<or> Init_op k \<in> set (pending t) \<longrightarrow>
           Some (data m') = map_option data (map_of (modules t0) k))"
      by (simp_all add: counted_def)
    show "(0 < invocations k ?tr \<longrightarrow> dependenciesToLoad m' \<le> 0) \<and>
        int (length (filter (\<lambda>d. \<not> was_up d ?tr) (dependencies m'))) +
          int (count_list rest k) \<le> dependenciesToLoad m' \<and>
        (Init_op k \<in> set ?pd \<longrightarrow> state_m m' = initializing) \<and>
        (state_m m' = up \<longrightarrow> was_up k ?tr) \<and>
        (invocations k ?tr = 0 \<or> Init_op k \<in> set ?pd \<longrightarrow>
           Some (data m') = map_option data (map_of (modules t0) k))"
      using f a assms(2,3,4,5) by (cases "k = n") auto
  qed
  from assms(1) on co io show ?thesis by (simp add: progress_def)
qed

lemma progress_initModule:
  assumes "progress rest t0 t" and "map_of (modules t) n = Some m"
    and "dependenciesToLoad m = 0"
    and "invocations n (trace t) = 0" and "Microtask \<notin> set (pending t)"
  shows "progress rest t0 (initModule n t)"
proof -
  let ?t1 = "changeModuleState n initializing t"
  let ?t2 = "?t1\<lparr>modulesToUnload := modulesToUnload ?t1 + 1\<rparr>"
  have "progress rest t0 ?t1"
    by (rule progress_changeModuleState) (use assms in auto)
  then have p2: "progress rest t0 ?t2" by simp
  have "progress rest t0 ((emit (Invoke_init n obj) ?t2)\<lparr>pending := pending ?t2 @ [Init_op n]\<rparr>)"
    for obj
    by (rule progress_invoke[OF p2, where m = "m\<lparr>state_m := initializing\<rparr>"])
       (use assms in \<open>auto simp: map_of_upd is_invoke_iff\<close>)
  then show ?thesis by (simp add: initModule_def Let_def)
qed

lemma progress_dependants_loop:
  assumes "progress rest t0 t" and "Microtask \<notin> set (pending t)"
  shows "progress [] t0 (dependants_loop rest t)"
  using assms
proof (induction rest arbitrary: t)
  case Nil
  then show ?case by simp
next
  case (Cons x rest)
  let ?t1 = "on_module x (\<lambda>m. m\<lparr>dependenciesToLoad := dependenciesToLoad m - 1\<rparr>) t"
  have p1: "progress rest t0 ?t1" by (rule progress_decrement[OF Cons.prems(1)])
  have q1: "Microtask \<notin> set (pending ?t1)" using Cons.prems(2) by simp
  show ?case
  proof (cases "map_of (modules ?t1) x")
    case None
    with Cons.IH[OF p1 q1] show ?thesis by (simp add: Let_def)
  next
    case (Some m)
    show ?thesis
    proof (cases "dependenciesToLoad m = 0")
      case True
      from Some obtain m' where m': "map_of (modules t) x = Some m'"
        and m: "m = m'\<lparr>dependenciesToLoad := dependenciesToLoad m' - 1\<rparr>"
        by (auto simp: map_of_upd)
      with True have "dependenciesToLoad m' = 1" by simp
      moreover from Cons.prems(1) m' have
        "0 < invocations x (trace t) \<longrightarrow> dependenciesToLoad m' \<le> 0"
        by (simp add: progress_def counted_def)
      ultimately have "invocations x (trace ?t1) = 0" by simp
      from progress_initModule[OF p1 Some True this q1]
      have "progress rest t0 (initModule x ?t1)" .
      moreover have "Microtask \<notin> set (pending (initModule x ?t1))" using q1 by simp
      ultimately have "progress [] t0 (dependants_loop rest (initModule x ?t1))"
        by (rule Cons.IH)
      with Some True show ?thesis by (simp add: Let_def)
    next
      case False
      with Cons.IH[OF p1 q1] Some show ?thesis by (simp add: Let_def)
    qed
  qed
qed

lemma progress_count_up_loop:
  "progress rest t0 t \<Longrightarrow> progress rest t0 (count_up_loop ds t)"
proof (induction ds arbitrary: t)
  case Nil
  then show ?case by simp
next
  case (Cons d ds)
  have "progress rest t0
          (on_module d (\<lambda>m. m\<lparr>dependantsToUnload := dependantsToUnload m + 1\<rparr>) t)"
    by (rule progress_on_module[OF Cons.prems]) simp
  from Cons.IH[OF this] show ?case by simp
qed

lemma pending_count_up_loop [simp]: "pending (count_up_loop ds t) = pending t"
  by (induction ds arbitrary: t) auto

lemma modules_count_up_loop:
  "statics (modules (count_up_loop ds t)) = statics (modules t)"
  by (induction ds arbitrary: t) (auto simp: statics_upd)

lemma progress_moduleInited:
  assumes "progress [] t0 t" and "Init_op n \<notin> set (pending t)"
    and "0 < invocations n (trace t)" and "\<not> was_up n (trace t)"
    and "moduleInited n t = Inr t'"
  shows "progress [] t0 t'"
proof -
  from assms(1,3) have mt: "Microtask \<notin> set (pending t)"
    by (auto simp: progress_def once_def)
  consider "state t = initializing" | "state t = deinitializing"
    using assms(5) by (cases "state t") (auto simp: moduleInited_def)
  then show ?thesis
  proof cases
    case 1
    let ?t1 = "changeModuleState n up t"
    let ?t2 = "count_up_loop (dependencies_of ?t1 n) ?t1"
    let ?t3 = "?t2\<lparr>modulesToLoad := modulesToLoad ?t2 - 1\<rparr>"
    let ?ds = "dants_in (modules t0) n"
    have "progress ?ds t0 ?t1" by (rule progress_module_up[OF assms(1-4)])
    then have "progress ?ds t0 ?t2" by (rule progress_count_up_loop)
    then have p3: "progress ?ds t0 ?t3" by simp
    have "statics (modules ?t3) = statics (modules t0)" using p3 by (simp add: progress_def)
    then have "dants_in (modules ?t3) = dants_in (modules t0)" by (rule statics_dants_in)
    then have "dants_in (modules ?t3) n = ?ds" by simp
    then have ds: "dependants_of ?t3 n = ?ds" by (simp add: dependants_of_def dants_in_def)
    have "Microtask \<notin> set (pending ?t3)" using mt by simp
    from progress_dependants_loop[OF p3 this]
    have a: "progress [] t0 (dependants_loop (dependants_of ?t3 n) ?t3)" by (simp only: ds)
    have b: "progress [] t0 (emit Emit_started (changeState up (resolve (initDefer ?t3) ?t3)))"
      by (intro progress_emit progress_changeState progress_resolve progress_weaken[OF p3]) auto
    from assms(5) 1 have t': 
      "t' = (if modulesToLoad ?t3 = 0
             then emit Emit_started (changeState up (resolve (initDefer ?t3) ?t3))
             else dependants_loop (dependants_of ?t3 n) ?t3)"
      by (simp add: moduleInited_def Let_def split: if_splits)
    show ?thesis
    proof (cases "modulesToLoad ?t3 = 0")
      case True
      have "t' = emit Emit_started (changeState up (resolve (initDefer ?t3) ?t3))"
        unfolding t' using True by (rule if_P)
      with b show ?thesis by (simp only:)
    next
      case False
      have "t' = dependants_loop (dependants_of ?t3 n) ?t3"
        unfolding t' using False by (rule if_not_P)
      with a show ?thesis by (simp only:)
    qed
  next
    case 2
    with assms(5) have "t' = deinitModule n t" by (simp add: moduleInited_def)
    with progress_deinitModule[OF assms(1,3,2)] show ?thesis by simp
  qed
qed

lemma progress_data_upd:
  assumes "progress rest t0 t" and "Init_op n \<notin> set (pending t)"
    and "0 < invocations n (trace t)"
  shows "progress rest t0 (on_module n (\<lambda>m. m\<lparr>data := g m\<rparr>) t)"
proof -
  have "counted rest (modules t0) (upd n (\<lambda>m. m\<lparr>data := g m\<rparr>) (modules t)) (pending t) (trace t)"
  proof (rule counted_upd)
    show "counted rest (modules t0) (modules t) (pending t) (trace t)"
      using assms(1) by (simp add: progress_def)
    show "\<And>m. map_of (modules t) n = Some m \<Longrightarrow>
           (Init_op n \<in> set (pending t) \<longrightarrow> state_m (m\<lparr>data := g m\<rparr>) = initializing) \<and>
           (state_m (m\<lparr>data := g m\<rparr>) = up \<longrightarrow> was_up n (trace t)) \<and>
           (invocations n (trace t) = 0 \<or> Init_op n \<in> set (pending t) \<longrightarrow>
              data (m\<lparr>data := g m\<rparr>) = data m)"
      using assms by (simp add: progress_def counted_def)
  qed simp
  moreover have "statics (upd n (\<lambda>m. m\<lparr>data := g m\<rparr>) (modules t)) = statics (modules t)"
    by (rule statics_upd) simp
  ultimately show ?thesis using assms(1) by (simp add: progress_def)
qed

lemma progress_init_succeeded:
  assumes "progress [] t0 t" and "Init_op n \<notin> set (pending t)"
    and "0 < invocations n (trace t)" and "\<not> was_up n (trace t)"
  shows "progress [] t0 (init_succeeded n v t)"
proof -
  let ?t1 = "on_module n (\<lambda>m. m\<lparr>data := (if truthy (data m) then data m else v)\<rparr>) t"
  have p1: "progress [] t0 ?t1" by (rule progress_data_upd[OF assms(1-3)])
  show ?thesis
  proof (cases "moduleInited n ?t1")
    case (Inl e)
    then show ?thesis using p1 by (simp add: init_succeeded_def progress_emit)
  next
    case (Inr t2)
    from progress_moduleInited[OF p1 _ _ _ Inr] assms(2-4) Inr show ?thesis
      by (simp add: init_succeeded_def)
  qed
qed

lemma progress_init_loop:
  assumes "progress [] t0 t" and "Microtask \<notin> set (pending t)" and "distinct ns"
    and "\<forall>n \<in> set ns. invocations n (trace t) = 0"
  shows "progress [] t0 (init_loop ns t)"
  using assms
proof (induction ns arbitrary: t)
  case Nil
  then show ?case by simp
next
  case (Cons x ns)
  let ?t1 = "t\<lparr>modulesToLoad := modulesToLoad t + 1\<rparr>"
  have d: "distinct ns" "x \<notin> set ns" using Cons.prems(3) by auto
  have p1: "progress [] t0 ?t1" using Cons.prems(1) by simp
  have r1: "progress [] t0 (init_loop ns ?t1)"
    by (rule Cons.IH[OF p1]) (use Cons.prems d in auto)
  have r0: "progress [] t0 (init_loop ns t)"
    by (rule Cons.IH[OF Cons.prems(1,2)]) (use Cons.prems d in auto)
  show ?case
  proof (cases "map_of (modules t) x")
    case None
    then show ?thesis using r0 by simp
  next
    case (Some m)
    show ?thesis
    proof (cases "needed m \<and> dependenciesToLoad m = 0")
      case True
      have "progress [] t0 (initModule x ?t1)"
        by (rule progress_initModule[OF p1, where m = m]) (use Some True Cons.prems in auto)
      moreover have "Microtask \<notin> set (pending (initModule x ?t1))"
        using Cons.prems(2) by simp
      moreover have "\<forall>n \<in> set ns. invocations n (trace (initModule x ?t1)) = 0"
        using Cons.prems(4) d(2) by (auto simp: trace_initModule)
      ultimately have "progress [] t0 (init_loop ns (initModule x ?t1))"
        using d(1) by (intro Cons.IH)
      then show ?thesis using Some True by (simp add: Let_def)
    next
      case False
      then show ?thesis using Some r0 r1 by (auto simp: Let_def)
    qed
  qed
qed

lemma progress_resume:
  assumes "progress [] t0 t" and "resume k t = Some u"
  shows "progress [] t0 u"
proof -
  from assms(2) have u: "u = t\<lparr>pending := remove1 k (pending t)\<rparr>" and k: "k \<in> set (pending t)"
    by (auto simp: resume_def split: if_splits)
  have le: "count_list (remove1 k (pending t)) x \<le> count_list (pending t) x" for x
    by (rule count_list_remove1_le)
  have sub: "set (remove1 k (pending t)) \<subseteq> set (pending t)" by (rule set_remove1_subset)
  have o: "once (pending t) (trace t)" using assms(1) by (simp add: progress_def)
  have "once (remove1 k (pending t)) (trace t)"
    unfolding once_def
  proof (intro conjI allI impI)
    show "count_list (remove1 k (pending t)) Microtask \<le> 1"
      using o le[of Microtask] by (simp add: once_def)
    show "invocations n (trace t) = 0" if "Microtask \<in> set (remove1 k (pending t))" for n
      using that o sub by (auto simp: once_def)
    show "count_list (remove1 k (pending t)) (Init_op n) + (if was_up n (trace t) then 1 else 0)
            \<le> invocations n (trace t)" for n
      using o le[of "Init_op n"] by (auto simp: once_def dest!: spec[of _ n])
    show "invocations n (trace t) \<le> 1" for n using o by (simp add: once_def)
    show "0 < invocations n (trace t)" if "Deinit_op n \<in> set (remove1 k (pending t))" for n
      using that o sub by (auto simp: once_def)
    show "Init_op n \<notin> set (remove1 k (pending t))"
      if "Deinit_op n \<in> set (remove1 k (pending t))" for n
      using that o sub by (auto simp: once_def)
  qed
  moreover have "counted [] (modules t0) (modules t) (remove1 k (pending t)) (trace t)"
    using assms(1) sub by (auto simp: progress_def counted_def)
  ultimately show ?thesis using assms(1) u by (simp add: progress_def)
qed

lemma resumed_once:
  assumes "progress [] t0 t" and "resume (Init_op n) t = Some u"
  shows "Init_op n \<notin> set (pending u) \<and> 0 < invocations n (trace u) \<and> \<not> was_up n (trace u)"
proof -
  from assms(2) have u: "u = t\<lparr>pending := remove1 (Init_op n) (pending t)\<rparr>"
    and k: "Init_op n \<in> set (pending t)"
    by (auto simp: resume_def split: if_splits)
  from k have c: "0 < count_list (pending t) (Init_op n)" by (rule count_list_pos)
  from assms(1) have
    "count_list (pending t) (Init_op n) + (if was_up n (trace t) then 1 else 0)
       \<le> invocations n (trace t)" "invocations n (trace t) \<le> 1"
    by (simp_all add: progress_def once_def)
  with c have f: "count_list (pending t) (Init_op n) = 1" "\<not> was_up n (trace t)"
    "0 < invocations n (trace t)"
    by (auto split: if_splits)
  from f(1) have "count_list (remove1 (Init_op n) (pending t)) (Init_op n) = 0"
    by (simp add: count_list_remove1)
  then have "Init_op n \<notin> set (remove1 (Init_op n) (pending t))"
    by (rule iffD1[OF count_list_0_iff])
  then show ?thesis using f u by simp
qed

lemma resumed_deinit:
  assumes "progress [] t0 t" and "resume (Deinit_op n) t = Some u"
  shows "Init_op n \<notin> set (pending u) \<and> 0 < invocations n (trace u)"
proof -
  from assms(2) have u: "u = t\<lparr>pending := remove1 (Deinit_op n) (pending t)\<rparr>"
    and k: "Deinit_op n \<in> set (pending t)"
    by (auto simp: resume_def split: if_splits)
  from assms(1) k have "0 < invocations n (trace t)" "Init_op n \<notin> set (pending t)"
    by (simp_all add: progress_def once_def)
  then show ?thesis using u by (auto dest: notin_set_remove1)
qed

lemma resumed_microtask:
  assumes "progress [] t0 t" and "resume Microtask t = Some u"
  shows "Microtask \<notin> set (pending u) \<and> (\<forall>n. invocations n (trace u) = 0)"
proof -
  from assms(2) have u: "u = t\<lparr>pending := remove1 Microtask (pending t)\<rparr>"
    and k: "Microtask \<in> set (pending t)"
    by (auto simp: resume_def split: if_splits)
  from k have c: "0 < count_list (pending t) Microtask" by (rule count_list_pos)
  from assms(1) k have f: "count_list (pending t) Microtask \<le> 1"
    "\<forall>n. invocations n (trace t) = 0"
    by (simp_all add: progress_def once_def)
  from f(1) have "count_list (remove1 Microtask (pending t)) Microtask = 0"
    by (simp add: count_list_remove1)
  then have "Microtask \<notin> set (remove1 Microtask (pending t))"
    by (rule iffD1[OF count_list_0_iff])
  then show ?thesis using f u by simp
qed

lemma progress_init:
  assumes "progress [] t0 t" and "state t = off \<longrightarrow> fresh t"
  shows "progress [] t0 (snd (init t))"
proof (cases "state t = off")
  case True
  with assms(2) have "pending t = []" "trace t = []" by (simp_all add: fresh_def)
  with assms(1) have
    "progress [] t0 (t\<lparr>pending := pending t @ [Microtask]\<rparr>)"
    by (simp add: progress_def once_def counted_def)
  moreover have "progress [] t0 (u\<lparr>pending := p\<rparr>) = progress [] t0 (w\<lparr>pending := p\<rparr>)"
    if "modules u = modules w" "trace u = trace w" for u w p
    using that by (simp add: progress_def)
  ultimately show ?thesis using True \<open>trace t = []\<close>
    by (simp add: init_def Let_def progress_def once_def counted_def in_order_def)
next
  case False
  then show ?thesis using assms(1) by (cases "state t") (simp_all add: init_def)
qed

lemma progress_step:
  assumes "progress [] t0 t" and "state t = off \<longrightarrow> fresh t" and "step a t = Some t'"
  shows "progress [] t0 t'"
proof (cases a)
  case Call_init
  with assms progress_init show ?thesis by auto
next
  case Call_deinit
  with assms progress_deinit show ?thesis by auto
next
  case Run_microtask
  with assms(3) obtain u where u: "resume Microtask t = Some u" and t': "t' = init_callback u"
    by auto
  have pu: "progress [] t0 u" by (rule progress_resume[OF assms(1) u])
  from pu have "distinct (map fst (modules u))"
    using statics_keys[of "modules u" "modules t0"] by (simp add: progress_def linked_def)
  with resumed_microtask[OF assms(1) u] pu show ?thesis
    unfolding t' init_callback_def by (intro progress_init_loop) auto
next
  case (Init_resolves n v)
  with assms(3) obtain u where u: "resume (Init_op n) t = Some u" and t': "t' = init_succeeded n v u"
    by auto
  from progress_resume[OF assms(1) u] resumed_once[OF assms(1) u] show ?thesis
    unfolding t' by (intro progress_init_succeeded) auto
next
  case (Init_rejects n err)
  with assms(3) obtain u where u: "resume (Init_op n) t = Some u" and t': "t' = init_failed n err u"
    by auto
  from progress_resume[OF assms(1) u] resumed_once[OF assms(1) u] show ?thesis
    unfolding t' by (intro progress_init_failed) auto
next
  case (Deinit_resolves n)
  with assms(3) obtain u where u: "resume (Deinit_op n) t = Some u"
    and t': "t' = deinit_succeeded n u"
    by auto
  from progress_resume[OF assms(1) u] resumed_deinit[OF assms(1) u] show ?thesis
    unfolding t' by (intro progress_deinit_succeeded) auto
next
  case (Deinit_rejects n err)
  with assms(3) obtain u where u: "resume (Deinit_op n) t = Some u"
    and t': "t' = deinit_failed n err u"
    by auto
  from progress_resume[OF assms(1) u] resumed_deinit[OF assms(1) u] show ?thesis
    unfolding t' by (intro progress_deinit_failed) auto
next
  case Add_error_listener
  with assms show ?thesis by auto
next
  case Remove_error_listener
  with assms show ?thesis by auto
qed

section \<open>The scheduling invariant holds in every run\<close>

lemma proj_upd:
  "(\<And>m. g (f m) = g m) \<Longrightarrow>
     map (\<lambda>(n, m). (n, g m)) (upd k f ms) = map (\<lambda>(n, m). (n, g m)) ms"
  by (induction ms) (auto simp: upd_def)

lemma wiring_fillDeps:
  "fillDeps ds ms = Inr ms' \<Longrightarrow>
     map (\<lambda>(n, m). (n, dependencies m, dependants m)) ms' =
     map (\<lambda>(n, m). (n, dependencies m, dependants m)) ms"
proof (induction ds ms rule: fillDeps.induct)
  case (1 ms)
  then show ?case by simp
next
  case (2 d rest ms)
  then obtain y where y: "map_of ms d = Some y" by (auto split: option.splits)
  show ?case
  proof (cases "needed y")
    case True
    then show ?thesis using 2 y by simp
  next
    case False
    then have "fillDeps (dependencies y @ rest) (upd d (\<lambda>m. m\<lparr>needed := True\<rparr>) ms) = Inr ms'"
      using "2.prems" y by simp
    from "2.IH"(2)[OF y False this] show ?thesis by (simp add: proj_upd)
  qed
qed

lemma wiring_fillNeeded:
  "fillNeeded n ms = Inr ms' \<Longrightarrow>
     map (\<lambda>(n, m). (n, dependencies m, dependants m)) ms' =
     map (\<lambda>(n, m). (n, dependencies m, dependants m)) ms"
  by (auto simp: fillNeeded_def proj_upd split: option.splits dest!: wiring_fillDeps)

lemma wiring_fill_loop:
  "fill_loop ns ms = Inr ms' \<Longrightarrow>
     map (\<lambda>(n, m). (n, dependencies m, dependants m)) ms' =
     map (\<lambda>(n, m). (n, dependencies m, dependants m)) ms"
proof (induction ns arbitrary: ms)
  case Nil
  then show ?case by simp
next
  case (Cons n ns)
  then obtain m where m: "map_of ms n = Some m" by (auto split: option.splits)
  show ?case
  proof (cases "needed m")
    case True
    then obtain ms1 where f: "fillNeeded n ms = Inr ms1" and l: "fill_loop ns ms1 = Inr ms'"
      using Cons.prems m by (auto split: sum.splits)
    from Cons.IH[OF l] wiring_fillNeeded[OF f] show ?thesis by simp
  next
    case False
    then show ?thesis using Cons m by simp
  qed
qed

lemma map_of_wiring:
  "map_of (map (\<lambda>(n, m). (n, dependencies m, dependants m)) ms) n =
     map_option (\<lambda>m. (dependencies m, dependants m)) (map_of ms n)"
  by (induction ms) auto

lemma wiring_in:
  assumes "map (\<lambda>(n, m). (n, dependencies m, dependants m)) ms' =
           map (\<lambda>(n, m). (n, dependencies m, dependants m)) ms"
  shows "deps_in ms' n = deps_in ms n \<and> dants_in ms' n = dants_in ms n"
proof -
  from assms have "map_of (map (\<lambda>(n, m). (n, dependencies m, dependants m)) ms') n =
                   map_of (map (\<lambda>(n, m). (n, dependencies m, dependants m)) ms) n"
    by simp
  then show ?thesis
    by (auto simp: map_of_wiring deps_in_def dants_in_def split: option.splits)
qed

lemma dants_add_dependants:
  "add_dependants x ds ms = Inr ms' \<Longrightarrow>
     count_list (dants_in ms' d) y =
     count_list (dants_in ms d) y + (if y = x then count_list ds d else 0)"
proof (induction ds arbitrary: ms)
  case Nil
  then show ?case by simp
next
  case (Cons e ds)
  let ?ms1 = "upd e (\<lambda>m. m\<lparr>dependants := dependants m @ [x]\<rparr>) ms"
  from Cons.prems obtain z where z: "get_module ms e = Own z"
    and r: "add_dependants x ds ?ms1 = Inr ms'"
    by (auto split: lookup.splits)
  from z have k: "map_of ms e = Some z"
    by (auto simp: get_module_def split: option.splits if_splits)
  have "dants_in ?ms1 d = (if d = e then dants_in ms d @ [x] else dants_in ms d)"
    using k by (auto simp: dants_in_def map_of_upd)
  with Cons.IH[OF r] show ?case by auto
qed

lemma dants_link:
  "distinct ns \<Longrightarrow> link ns ms = Inr ms' \<Longrightarrow>
     count_list (dants_in ms' d) y =
     count_list (dants_in ms d) y + (if y \<in> set ns then count_list (deps_in ms y) d else 0)"
proof (induction ns arbitrary: ms)
  case Nil
  then show ?case by simp
next
  case (Cons n ns)
  from Cons.prems(2) obtain m ms1 where m: "map_of ms n = Some m"
    and a: "add_dependants n (dependencies m) ms = Inr ms1" and l: "link ns ms1 = Inr ms'"
    by (auto split: option.splits sum.splits)
  have d: "distinct ns" "n \<notin> set ns" using Cons.prems(1) by auto
  have e: "deps_in ms1 = deps_in ms" using in_add_dependants[OF a] by simp
  have dn: "deps_in ms n = dependencies m" using m by (simp add: deps_in_def)
  from Cons.IH[OF d(1) l] dants_add_dependants[OF a, of d y] e dn d(2)
  show ?case by auto
qed

lemma linked_build:
  assumes "distinct (map fst input)" and "build input = Inr ms"
  shows "linked ms"
proof -
  let ?ms0 = "map (\<lambda>(name, d). (name, new_module d)) input"
  obtain ms1 where l: "link (map fst ?ms0) ?ms0 = Inr ms1"
    and f: "fill_loop (map fst ms1) ms1 = Inr ms"
    using assms(2) by (auto simp: build_def Let_def split: sum.splits)
  have k0: "map fst ?ms0 = map fst input" by (induction input) auto
  have z: "dants_in ?ms0 d = []" for d
  proof -
    have "map_of ?ms0 d = map_option new_module (map_of input d)"
      by (rule map_of_new_modules)
    then have "dants_in ?ms0 d =
                 (case map_of input d of None \<Rightarrow> [] | Some x \<Rightarrow> dependants (new_module x))"
      by (simp only: dants_in_def option.map_disc_iff split: option.splits) auto
    then show ?thesis by (simp add: new_module_def Let_def split: option.splits)
  qed
  have nk: "deps_in ?ms0 y = []" if "y \<notin> set (map fst ?ms0)" for y
  proof -
    have "set (map fst ?ms0) = fst ` set ?ms0" by (rule set_map)
    with that have "y \<notin> fst ` set ?ms0" by blast
    then have "map_of ?ms0 y = None" by (rule iffD2[OF map_of_eq_None_iff])
    then show ?thesis by (simp add: deps_in_def)
  qed
  have c1: "count_list (dants_in ms1 d) y = count_list (deps_in ms1 y) d" for d y
  proof -
    have dk: "distinct (map fst ?ms0)" using assms(1) by (simp only: k0)
    have a: "count_list (dants_in ?ms0 d) y = 0" by (simp only: z count_list.simps)
    have "count_list (dants_in ms1 d) y =
            (if y \<in> set (map fst ?ms0) then count_list (deps_in ?ms0 y) d else 0)"
      using dants_link[OF dk l, of d y] a by linarith
    also have "\<dots> = count_list (deps_in ?ms0 y) d" using nk[of y] by auto
    also have "deps_in ?ms0 = deps_in ms1" using in_link[OF l] by simp
    finally show ?thesis .
  qed
  from wiring_in[OF wiring_fill_loop[OF f]] c1
  have "count_list (dants_in ms d) y = count_list (deps_in ms y) d" for d y by simp
  moreover have "distinct (map fst ms)" using built_keys[OF assms(2)] assms(1) by simp
  ultimately show ?thesis by (simp add: linked_def)
qed

lemma progress_constructor:
  assumes "wf_input input" and "constructor input = Inr t0"
  shows "progress [] t0 t0"
proof -
  obtain ms where b: "build input = Inr ms" and m: "modules t0 = ms"
    and p: "pending t0 = []" and tr: "trace t0 = []"
    using assms(2) by (auto simp: constructor_def split: sum.splits)
  have lk: "linked ms" using linked_build[OF _ b] assms(1) by (simp add: wf_input_def)
  have "counted [] ms ms [] []"
    unfolding counted_def
  proof (intro allI impI)
    fix n x assume a: "map_of ms n = Some x"
    then have "(n, x) \<in> set ms" by (rule map_of_SomeD)
    from built_entry[OF b this] obtain d where "core x = core (new_module d)" by blast
    from core_fields[OF this] have "dependenciesToLoad x = int (length (dependencies x))"
      "state_m x = off"
      by (simp_all add: new_module_def Let_def)
    with a show "(0 < invocations n [] \<longrightarrow> dependenciesToLoad x \<le> 0) \<and>
        int (length (filter (\<lambda>d. \<not> was_up d []) (dependencies x))) + int (count_list [] n)
          \<le> dependenciesToLoad x \<and>
        (Init_op n \<in> set [] \<longrightarrow> state_m x = initializing) \<and>
        (state_m x = up \<longrightarrow> was_up n []) \<and>
        (invocations n [] = 0 \<or> Init_op n \<in> set [] \<longrightarrow>
           Some (data x) = map_option data (map_of ms n))"
      by simp
  qed
  with lk m p tr show ?thesis by (simp add: progress_def once_def in_order_def)
qed

lemma progress_run:
  assumes "wf_input input" and "constructor input = Inr t0" and "run acts t0 = Some t"
  shows "progress [] t0 t"
proof -
  have "progress [] t0 t \<and> (fresh t \<or> shut t \<or> begun t)"
  proof (rule run_invariant[OF assms(3),
           where P = "\<lambda>u. progress [] t0 u \<and> (fresh u \<or> shut u \<or> begun u)"])
    show "progress [] t0 t0 \<and> (fresh t0 \<or> shut t0 \<or> begun t0)"
      using progress_constructor[OF assms(1,2)] fresh_constructor[OF assms(2)] by simp
  next
    fix a u u'
    assume i: "progress [] t0 u \<and> (fresh u \<or> shut u \<or> begun u)" and s: "step a u = Some u'"
    from i have "state u = off \<longrightarrow> fresh u" by (auto simp: shut_def begun_def)
    with i s have "progress [] t0 u'" by (intro progress_step[of t0 u a u']) auto
    moreover from i s have "fresh u' \<or> shut u' \<or> begun u'"
      by (intro fresh_or_begun_step[of u a u']) auto
    ultimately show "progress [] t0 u' \<and> (fresh u' \<or> shut u' \<or> begun u')" by simp
  qed
  then show ?thesis by simp
qed

section \<open>The data of a module\<close>

lemma data_of_fields [simp]:
  "data_of (emit e t) k = data_of t k"
  "data_of (changeState s t) k = data_of t k"
  "data_of (resolve d t) k = data_of t k"
  "data_of (t\<lparr>modulesToLoad := a\<rparr>) k = data_of t k"
  "data_of (t\<lparr>modulesToUnload := b\<rparr>) k = data_of t k"
  "data_of (t\<lparr>pending := c\<rparr>) k = data_of t k"
  by (simp_all add: data_of_def)

lemma data_of_on_module:
  "(\<And>m. data (f m) = data m) \<Longrightarrow> data_of (on_module n f t) k = data_of t k"
  by (auto simp: data_of_def map_of_upd split: option.splits)

lemma data_of_changeModuleState [simp]: "data_of (changeModuleState n s t) k = data_of t k"
  by (simp add: changeModuleState_def data_of_on_module)

lemma data_of_initModule [simp]: "data_of (initModule n t) k = data_of t k"
  by (simp add: initModule_def Let_def)

lemma data_of_deinitModule [simp]: "data_of (deinitModule n t) k = data_of t k"
  by (simp add: deinitModule_def Let_def)

lemma data_of_moduleInited:
  assumes "moduleInited n t = Inr t'"
  shows "data_of t' k = data_of t k"
proof -
  have c: "data_of (count_up_loop ds u) k = data_of u k" for ds u
    by (rule count_up_loop_preserves[where P = "\<lambda>w. data_of w k = data_of u k"])
       (simp_all add: data_of_on_module)
  have d: "data_of (dependants_loop ds u) k = data_of u k" for ds u
    by (rule dependants_loop_preserves[where P = "\<lambda>w. data_of w k = data_of u k"])
       (simp_all add: data_of_on_module)
  from assms show ?thesis
    by (cases "state t") (auto simp: moduleInited_def Let_def c d split: if_splits)
qed

lemma data_of_init_succeeded:
  "data_of (init_succeeded n v t) n =
     (if map_of (modules t) n = None then JUndefined
      else if truthy (data_of t n) then data_of t n else v)"
proof -
  let ?t1 = "on_module n (\<lambda>m. m\<lparr>data := (if truthy (data m) then data m else v)\<rparr>) t"
  have 1: "data_of ?t1 n =
     (if map_of (modules t) n = None then JUndefined
      else if truthy (data_of t n) then data_of t n else v)"
    by (auto simp: data_of_def map_of_upd split: option.splits)
  show ?thesis
  proof (cases "moduleInited n ?t1")
    case (Inl e)
    then show ?thesis using 1 by (simp add: init_succeeded_def)
  next
    case (Inr t2)
    from data_of_moduleInited[OF Inr, of n] 1 Inr show ?thesis
      by (simp add: init_succeeded_def)
  qed
qed

lemma seed_constructor:
  assumes "wf_input input" and "constructor input = Inr t0" and "(n, d) \<in> set input"
  shows "\<exists>m. map_of (modules t0) n = Some m \<and> data m = seed d"
proof -
  obtain ms where b: "build input = Inr ms" and m: "modules t0 = ms"
    using assms(2) by (auto simp: constructor_def split: sum.splits)
  have di: "distinct (map fst input)" using assms(1) by (simp add: wf_input_def)
  have "n \<in> set (map fst ms)" using built_keys[OF b] assms(3) by force
  then obtain x where x: "map_of ms n = Some x"
    by (cases "map_of ms n") (auto simp: map_of_eq_None_iff)
  then have "(n, x) \<in> set ms" by (rule map_of_SomeD)
  from built_entry[OF b this] obtain d' where d': "(n, d') \<in> set input"
    "core x = core (new_module d')" by blast
  from di assms(3) d'(1) have "d' = d" by (meson eq_key_imp_eq_value)
  with core_fields[OF d'(2)] have "data x = seed d" by (simp add: new_module_def Let_def)
  with x m show ?thesis by simp
qed

lemma in_flight:
  assumes "wf_input input" and "constructor input = Inr t0" and "run acts t0 = Some t"
    and "Init_op n \<in> set (pending t)"
  shows "\<exists>m. map_of (modules t) n = Some m \<and> state_m m = initializing \<and>
             Some (data m) = map_option data (map_of (modules t0) n) \<and>
             Deinit_op n \<notin> set (pending t)"
proof -
  have p: "progress [] t0 t" by (rule progress_run[OF assms(1-3)])
  from assms(4) have "0 < count_list (pending t) (Init_op n)" by (rule count_list_pos)
  moreover from p have
    "count_list (pending t) (Init_op n) + (if was_up n (trace t) then 1 else 0)
       \<le> invocations n (trace t)"
    by (simp add: progress_def once_def)
  ultimately have i: "0 < invocations n (trace t)" by linarith
  with p have "n \<in> fst ` set (modules t0)" by (simp add: progress_def in_order_def)
  moreover have "map fst (modules t) = map fst (modules t0)"
    using p by (intro statics_keys) (simp add: progress_def)
  ultimately have "n \<in> fst ` set (modules t)" by (metis set_map)
  then obtain m where m: "map_of (modules t) n = Some m"
    by (cases "map_of (modules t) n") (auto simp: map_of_eq_None_iff)
  with p assms(4) have "state_m m = initializing"
    "Some (data m) = map_option data (map_of (modules t0) n)"
    by (simp_all add: progress_def counted_def)
  moreover from p assms(4) have "Deinit_op n \<notin> set (pending t)"
    by (auto simp: progress_def once_def)
  ultimately show ?thesis using m by simp
qed

text \<open>
  C4 (as amended). When the init operation of a module completes successfully, the
  module's data is the seed given at construction when that seed is truthy, and the value
  returned by the operation otherwise: a seed that is \<^verbatim>\<open>undefined\<close>, \<^verbatim>\<open>null\<close>, \<^verbatim>\<open>false\<close>, \<^verbatim>\<open>0\<close>
  or the empty string does not keep the returned value out.
\<close>

theorem init_result_stored_unless_seed_truthy:
  assumes "wf_input input" and "constructor input = Inr t0" and "run acts t0 = Some t"
    and "step (Init_resolves name v) t = Some t'" and "(name, d) \<in> set input"
  shows "data_of t' name = (if truthy (seed d) then seed d else v)"
proof -
  obtain u where u: "resume (Init_op name) t = Some u" "t' = init_succeeded name v u"
    using assms(4) by auto
  then have k: "Init_op name \<in> set (pending t)" and mu: "modules u = modules t"
    by (auto simp: resume_def split: if_splits)
  from in_flight[OF assms(1-3) k] obtain m where m: "map_of (modules t) name = Some m"
    "Some (data m) = map_option data (map_of (modules t0) name)" by blast
  from seed_constructor[OF assms(1,2,5)] m have "data m = seed d" by auto
  with m(1) mu have "map_of (modules u) name \<noteq> None" "data_of u name = seed d"
    by (simp_all add: data_of_def)
  then show ?thesis unfolding u(2) by (auto simp: data_of_init_succeeded)
qed

theorem init_result_stored_unless_seed_truthy_witness:
  "\<exists>t0 t t'. wf_input seeded_text \<and> constructor seeded_text = Inr t0 \<and>
     run [Call_init, Run_microtask] t0 = Some t \<and>
     step (Init_resolves ''a'' (JNum 5)) t = Some t' \<and>
     (''a'', \<lparr>deps = None, seed = JStr ''x'', needed_flag = Some True\<rparr>) \<in> set seeded_text \<and>
     data_of t' ''a'' = JStr ''x''"
proof -
  have w: "wf_input seeded_text" by code_simp
  have "\<not> isl (constructor seeded_text)" by code_simp
  then obtain t0 where t0: "constructor seeded_text = Inr t0" by (cases "constructor seeded_text") auto
  then have p: "projr (constructor seeded_text) = t0" by simp
  have "run [Call_init, Run_microtask] (projr (constructor seeded_text)) \<noteq> None" by code_simp
  then obtain t where t: "run [Call_init, Run_microtask] t0 = Some t" using p by auto
  have "map_option (\<lambda>t. step (Init_resolves ''a'' (JNum 5)) t \<noteq> None)
          (run [Call_init, Run_microtask] (projr (constructor seeded_text))) = Some True"
    by code_simp
  then obtain t' where t': "step (Init_resolves ''a'' (JNum 5)) t = Some t'" using p t by auto
  have i: "(''a'', \<lparr>deps = None, seed = JStr ''x'', needed_flag = Some True\<rparr>) \<in> set seeded_text"
    by (simp add: seeded_text_def)
  from init_result_stored_unless_seed_truthy[OF w t0 t t' i] w t0 t t' i
  show ?thesis by auto
qed

text \<open>
  A run against the claim as it was stated: the seed \<^verbatim>\<open>0\<close> was supplied at construction, and
  after the init operation has returned \<^verbatim>\<open>5\<close> the module's data is \<^verbatim>\<open>5\<close>.
\<close>

theorem falsy_seed_is_replaced:
  "map (\<lambda>(n, d). (n, seed d)) seeded_zero = [(''a'', JNum 0)] \<and>
   map_option (\<lambda>t. data_of t ''a'') (run_from seeded_zero [Call_init, Run_microtask]) =
     Some (JNum 0) \<and>
   map_option (\<lambda>t. data_of t ''a'') (run_from seeded_zero seeded_zero_init) = Some (JNum 5)"
  by code_simp

section \<open>An init that completes after the unwinding has begun\<close>




end
